theory Spec2Isabelle
  imports Main "HOL-Library.AList" "HOL-Library.Multiset"
begin

section \<open>Python strings\<close>

text \<open>
  A Python \<^verbatim>\<open>str\<close> is a sequence of Unicode code points, so a string is a list of
  code points here (the checkbox glyph U+25A0 is one element, as in Python). The white
  space table is the one of CPython (\<^verbatim>\<open>str.isspace\<close>, \<^verbatim>\<open>str.split()\<close>, \<^verbatim>\<open>str.strip()\<close>
  and the pattern class \<^verbatim>\<open>\s\<close> all read it). Decimal digits and letter case are those
  of the ASCII block: a code point outside it counts as no digit and has no case.
\<close>

type_synonym uchar = int
type_synonym ustring = "uchar list"

definition ustr :: "string \<Rightarrow> ustring" where
  "ustr s = map of_char s"

abbreviation NL :: uchar where "NL \<equiv> 10"
abbreviation SP :: uchar where "SP \<equiv> 32"
abbreviation BOX :: uchar where "BOX \<equiv> 9632"
abbreviation USCORE :: uchar where "USCORE \<equiv> 95"
abbreviation COMMA :: uchar where "COMMA \<equiv> 44"
abbreviation LPAREN :: uchar where "LPAREN \<equiv> 40"
abbreviation RPAREN :: uchar where "RPAREN \<equiv> 41"

definition isspace :: "uchar \<Rightarrow> bool" where
  "isspace c \<longleftrightarrow>
     (9 \<le> c \<and> c \<le> 13) \<or> (28 \<le> c \<and> c \<le> 32) \<or> c = 133 \<or> c = 160 \<or> c = 5760 \<or>
     (8192 \<le> c \<and> c \<le> 8202) \<or> c = 8232 \<or> c = 8233 \<or> c = 8239 \<or> c = 8287 \<or> c = 12288"

definition isdigit :: "uchar \<Rightarrow> bool" where
  "isdigit c \<longleftrightarrow> 48 \<le> c \<and> c \<le> 57"

definition lower_chr :: "uchar \<Rightarrow> uchar" where
  "lower_chr c = (if 65 \<le> c \<and> c \<le> 90 then c + 32 else c)"

text \<open>\<^verbatim>\<open>s.lower()\<close>\<close>
definition py_lower :: "ustring \<Rightarrow> ustring" where
  "py_lower s = map lower_chr s"

text \<open>\<^verbatim>\<open>s.split()\<close>: the maximal runs of non-space characters.\<close>
fun py_split :: "ustring \<Rightarrow> ustring list" where
  "py_split [] = []"
| "py_split (c # cs) =
     (if isspace c then py_split cs
      else if cs = [] \<or> isspace (hd cs) then [c] # py_split cs
      else (case py_split cs of [] \<Rightarrow> [[c]] | w # ws \<Rightarrow> (c # w) # ws))"

text \<open>\<^verbatim>\<open>sep.join(parts)\<close>\<close>
fun py_join :: "ustring \<Rightarrow> ustring list \<Rightarrow> ustring" where
  "py_join sep [] = []"
| "py_join sep [x] = x"
| "py_join sep (x # y # ys) = x @ sep @ py_join sep (y # ys)"

text \<open>\<^verbatim>\<open>s.strip()\<close>\<close>
definition py_strip :: "ustring \<Rightarrow> ustring" where
  "py_strip s = rev (dropWhile isspace (rev (dropWhile isspace s)))"

text \<open>\<^verbatim>\<open>s.split(d)\<close> for a one-character separator: never the empty list.\<close>
fun split_chr :: "uchar \<Rightarrow> ustring \<Rightarrow> ustring list" where
  "split_chr d [] = [[]]"
| "split_chr d (c # cs) =
     (if c = d then [] # split_chr d cs
      else (case split_chr d cs of [] \<Rightarrow> [[c]] | w # ws \<Rightarrow> (c # w) # ws))"

fun starts_with :: "ustring \<Rightarrow> ustring \<Rightarrow> bool" where
  "starts_with [] s = True"
| "starts_with (k # ks) [] = False"
| "starts_with (k # ks) (c # cs) = (k = c \<and> starts_with ks cs)"

text \<open>\<^verbatim>\<open>s.find(k)\<close>, with None for -1.\<close>
fun py_find :: "ustring \<Rightarrow> ustring \<Rightarrow> nat option" where
  "py_find k [] = (if k = [] then Some 0 else None)"
| "py_find k (c # cs) =
     (if starts_with k (c # cs) then Some 0 else map_option Suc (py_find k cs))"

text \<open>\<^verbatim>\<open>k in s\<close>\<close>
definition contains :: "ustring \<Rightarrow> ustring \<Rightarrow> bool" where
  "contains k s \<longleftrightarrow> py_find k s \<noteq> None"

text \<open>\<^verbatim>\<open>s.split(k, 1)\<close>\<close>
definition split_once :: "ustring \<Rightarrow> ustring \<Rightarrow> ustring list" where
  "split_once k s =
     (case py_find k s of
        None \<Rightarrow> [s]
      | Some i \<Rightarrow> [take i s, drop (i + length k) s])"

text \<open>\<^verbatim>\<open>s[start:end]\<close> for \<open>0 \<le> start\<close> and \<open>0 \<le> end\<close>.\<close>
definition slice :: "ustring \<Rightarrow> nat \<Rightarrow> nat \<Rightarrow> ustring" where
  "slice s start end = take (end - start) (drop start s)"

text \<open>
  \<^verbatim>\<open>int(s)\<close> on the strings the parser gives it, which are runs of digits: the value,
  or None for the ValueError of a string that is no such run.
\<close>
definition py_int :: "ustring \<Rightarrow> int option" where
  "py_int s =
     (if s \<noteq> [] \<and> list_all isdigit s
      then Some (foldl (\<lambda>n c. 10 * n + (c - 48)) 0 s)
      else None)"

text \<open>The truth value of an \<^verbatim>\<open>Optional[str]\<close>.\<close>
fun truthy :: "ustring option \<Rightarrow> bool" where
  "truthy None = False"
| "truthy (Some s) = (s \<noteq> [])"


section \<open>Regular expressions\<close>

text \<open>
  The patterns of the parser, as syntax trees, and a backtracking matcher that lists the
  ways a pattern matches at a position in the order in which Python's \<^verbatim>\<open>re\<close> tries
  them; the first one is the match. Every repetition in the parser's patterns is over a
  single character class, so \<open>Rep\<close> repeats a class: \<open>Rep c greedy lo hi\<close> is
  \<^verbatim>\<open>c{lo,hi}\<close>, with no upper bound when \<open>hi\<close> is None.
\<close>

datatype cclass =
    Chr uchar            \<comment> \<open>a literal character\<close>
  | ChrI uchar           \<comment> \<open>a literal character under IGNORECASE\<close>
  | Digit                \<comment> \<open>\<^verbatim>\<open>\d\<close>\<close>
  | Space                \<comment> \<open>\<^verbatim>\<open>\s\<close>\<close>
  | NoneOf "uchar list"  \<comment> \<open>\<^verbatim>\<open>[^...]\<close>\<close>
  | Dot                  \<comment> \<open>\<^verbatim>\<open>.\<close>: all but the newline\<close>

fun cmatch :: "cclass \<Rightarrow> uchar \<Rightarrow> bool" where
  "cmatch (Chr a) c = (c = a)"
| "cmatch (ChrI a) c = (lower_chr c = lower_chr a)"
| "cmatch Digit c = isdigit c"
| "cmatch Space c = isspace c"
| "cmatch (NoneOf as) c = (c \<notin> set as)"
| "cmatch Dot c = (c \<noteq> NL)"

datatype re =
    Sym cclass
  | Eps
  | Seq re re
  | Alt re re
  | Rep cclass bool nat "nat option"
  | Grp nat re           \<comment> \<open>a capturing group and its number\<close>
  | Ahead re             \<comment> \<open>\<^verbatim>\<open>(?=...)\<close>\<close>
  | Bos                  \<comment> \<open>\<^verbatim>\<open>^\<close>\<close>
  | Eos                  \<comment> \<open>\<^verbatim>\<open>$\<close>: the end, or before a newline that ends the string\<close>

text \<open>A matcher state: the position, the text from there on, the groups closed so far.\<close>
type_synonym mstate = "nat \<times> ustring \<times> (nat \<times> ustring) list"

fun rep :: "cclass \<Rightarrow> bool \<Rightarrow> nat \<Rightarrow> nat option \<Rightarrow> nat \<Rightarrow> (nat \<times> ustring) list \<Rightarrow> ustring
    \<Rightarrow> mstate list" where
  "rep c greedy lo hi p g [] = (if lo = 0 then [(p, [], g)] else [])"
| "rep c greedy lo hi p g (x # xs) =
     (if greedy
      then (if cmatch c x \<and> hi \<noteq> Some 0
            then rep c greedy (lo - 1) (map_option (\<lambda>h. h - 1) hi) (Suc p) g xs else [])
           @ (if lo = 0 then [(p, x # xs, g)] else [])
      else (if lo = 0 then [(p, x # xs, g)] else [])
           @ (if cmatch c x \<and> hi \<noteq> Some 0
              then rep c greedy (lo - 1) (map_option (\<lambda>h. h - 1) hi) (Suc p) g xs else []))"

fun ms :: "re \<Rightarrow> mstate \<Rightarrow> mstate list" where
  "ms (Sym c) (p, xs, g) =
     (case xs of [] \<Rightarrow> [] | x # xs' \<Rightarrow> if cmatch c x then [(Suc p, xs', g)] else [])"
| "ms Eps s = [s]"
| "ms (Seq a b) s = concat (map (ms b) (ms a s))"
| "ms (Alt a b) s = ms a s @ ms b s"
| "ms (Rep c greedy lo hi) (p, xs, g) = rep c greedy lo hi p g xs"
| "ms (Grp k r) (p, xs, g) =
     map (\<lambda>(p', xs', g'). (p', xs', g' @ [(k, take (p' - p) xs)])) (ms r (p, xs, g))"
| "ms (Ahead r) s = (if ms r s = [] then [] else [s])"
| "ms Bos (p, xs, g) = (if p = 0 then [(p, xs, g)] else [])"
| "ms Eos (p, xs, g) = (if xs = [] \<or> xs = [NL] then [(p, xs, g)] else [])"

record rmatch =
  m_start :: nat
  m_end :: nat
  m_groups :: "(nat \<times> ustring) list"

text \<open>\<^verbatim>\<open>match.group(k)\<close> for a group that took part in the match.\<close>
definition group :: "rmatch \<Rightarrow> nat \<Rightarrow> ustring" where
  "group m k = (case map_of (m_groups m) k of Some s \<Rightarrow> s | None \<Rightarrow> [])"

text \<open>The match of a pattern that starts at position \<open>p\<close>, where \<open>xs\<close> is the text from \<open>p\<close> on.\<close>
definition match_at :: "re \<Rightarrow> nat \<Rightarrow> ustring \<Rightarrow> rmatch option" where
  "match_at r p xs =
     (case ms r (p, xs, []) of
        [] \<Rightarrow> None
      | (e, _, g) # _ \<Rightarrow> Some \<lparr>m_start = p, m_end = e, m_groups = g\<rparr>)"

text \<open>
  \<^verbatim>\<open>pattern.finditer(text)\<close>: the leftmost match, then the leftmost match in what follows
  it, and so on. \<open>skip\<close> counts the characters still inside the last match. (A match of the
  empty string moves the scan one character on; no pattern of the parser has one.)
\<close>
fun finditer_from :: "re \<Rightarrow> nat \<Rightarrow> nat \<Rightarrow> ustring \<Rightarrow> rmatch list" where
  "finditer_from r skip p [] =
     (if skip = 0 then (case match_at r p [] of None \<Rightarrow> [] | Some m \<Rightarrow> [m]) else [])"
| "finditer_from r skip p (c # cs) =
     (if 0 < skip then finditer_from r (skip - 1) (Suc p) cs
      else (case match_at r p (c # cs) of
              None \<Rightarrow> finditer_from r 0 (Suc p) cs
            | Some m \<Rightarrow> m # finditer_from r (m_end m - p - 1) (Suc p) cs))"

definition finditer :: "re \<Rightarrow> ustring \<Rightarrow> rmatch list" where
  "finditer r text = finditer_from r 0 0 text"

text \<open>\<^verbatim>\<open>re.sub(pattern, '', text)\<close>: the text without the matches of the pattern.\<close>
fun sub_from :: "re \<Rightarrow> nat \<Rightarrow> nat \<Rightarrow> ustring \<Rightarrow> ustring" where
  "sub_from r skip p [] = []"
| "sub_from r skip p (c # cs) =
     (if 0 < skip then sub_from r (skip - 1) (Suc p) cs
      else (case match_at r p (c # cs) of
              None \<Rightarrow> c # sub_from r 0 (Suc p) cs
            | Some m \<Rightarrow>
                if m_end m = p then c # sub_from r 0 (Suc p) cs
                else sub_from r (m_end m - p - 1) (Suc p) cs))"

definition re_sub :: "re \<Rightarrow> ustring \<Rightarrow> ustring" where
  "re_sub r text = sub_from r 0 0 text"

fun cat :: "re list \<Rightarrow> re" where
  "cat [] = Eps"
| "cat [r] = r"
| "cat (r # rs) = Seq r (cat rs)"

text \<open>A literal word, and a literal word under IGNORECASE.\<close>
definition lit :: "string \<Rightarrow> re" where
  "lit s = cat (map (\<lambda>c. Sym (Chr (of_char c))) s)"

definition lit_i :: "string \<Rightarrow> re" where
  "lit_i s = cat (map (\<lambda>c. Sym (ChrI (of_char c))) s)"

abbreviation Star :: "cclass \<Rightarrow> re" where "Star c \<equiv> Rep c True 0 None"
abbreviation Plus :: "cclass \<Rightarrow> re" where "Plus c \<equiv> Rep c True 1 None"
abbreviation Opt :: "re \<Rightarrow> re" where "Opt r \<equiv> Alt r Eps"


section \<open>The parser of maintenance guides (\<^verbatim>\<open>parsers/maintenance_pdf.py\<close>)\<close>

record MaintenanceItem =
  service :: ustring
  category :: ustring
  condition :: "ustring option"

record MaintenanceInterval =
  interval_miles :: int
  interval_months :: int
  items :: "MaintenanceItem list"

record MaintenanceSchedule =
  make' :: ustring  \<comment> \<open>the field \<^verbatim>\<open>make\<close>\<close>
  model :: ustring
  year :: int
  intervals :: "MaintenanceInterval list"
  source_pdf :: "ustring option"

text \<open>\<^verbatim>\<open>(\d{1,3},?\d{3})\s*miles?\s*(?:or)?\s*(\d+)\s*months?\<close> under IGNORECASE\<close>
definition INTERVAL_PATTERN :: re where
  "INTERVAL_PATTERN = cat [
     Grp 1 (cat [Rep Digit True 1 (Some 3), Rep (Chr COMMA) True 0 (Some 1),
                 Rep Digit True 3 (Some 3)]),
     Star Space, lit_i ''mile'', Rep (ChrI 115) True 0 (Some 1),
     Star Space, Opt (lit_i ''or''),
     Star Space, Grp 2 (Plus Digit),
     Star Space, lit_i ''month'', Rep (ChrI 115) True 0 (Some 1)]"

text \<open>The keywords of the special operating conditions, in the order of the table.\<close>
definition SPECIAL_CONDITIONS :: "(ustring \<times> ustring) list" where
  "SPECIAL_CONDITIONS = [
     (ustr ''dusty'', ustr ''dusty_roads''),
     (ustr ''dirt road'', ustr ''dusty_roads''),
     (ustr ''towing'', ustr ''towing''),
     (ustr ''car-top carrier'', ustr ''towing''),
     (ustr ''heavy vehicle loading'', ustr ''heavy_loading''),
     (ustr ''trips of less than five miles'', ustr ''short_trips_cold''),
     (ustr ''temperatures below 32'', ustr ''short_trips_cold''),
     (ustr ''extensive idling'', ustr ''extensive_idling''),
     (ustr ''low speed driving'', ustr ''extensive_idling''),
     (ustr ''police'', ustr ''fleet_use''),
     (ustr ''taxi'', ustr ''fleet_use''),
     (ustr ''door-to-door delivery'', ustr ''fleet_use'')]"

text \<open>
  The noise patterns of \<^verbatim>\<open>_clean_service_text\<close>:
  \<^verbatim>\<open>^\d+\s*\<close>, \<^verbatim>\<open>\(.*?\)\<close>, \<^verbatim>\<open>Dealer Service Verification.*\<close>, \<^verbatim>\<open>Date:.*\<close>, \<^verbatim>\<open>Mileage:.*\<close>.
\<close>
definition noise_patterns :: "re list" where
  "noise_patterns = [
     cat [Bos, Plus Digit, Star Space],
     cat [Sym (Chr LPAREN), Rep Dot False 0 None, Sym (Chr RPAREN)],
     cat [lit ''Dealer Service Verification'', Star Dot],
     cat [lit ''Date:'', Star Dot],
     cat [lit ''Mileage:'', Star Dot]]"

text \<open>The two patterns of \<^verbatim>\<open>noise_patterns[:-3]\<close>, which the loop applies.\<close>
definition lead_pattern :: re where
  "lead_pattern = Seq Bos (Seq (Plus Digit) (Star Space))"

definition paren_pattern :: re where
  "paren_pattern = Seq (Sym (Chr LPAREN)) (Seq (Rep Dot False 0 None) (Sym (Chr RPAREN)))"

text \<open>\<^verbatim>\<open>xs[:-n]\<close> for \<open>0 < n\<close>\<close>
definition drop_last :: "nat \<Rightarrow> 'a list \<Rightarrow> 'a list" where
  "drop_last n xs = take (length xs - n) xs"

text \<open>
  \<^verbatim>\<open>_clean_service_text\<close>: the white space is normalised, then the loop removes the
  matches of the patterns of \<^verbatim>\<open>noise_patterns[:-3]\<close>, one pattern after the other.
\<close>
definition clean_service_text :: "ustring \<Rightarrow> ustring" where
  "clean_service_text text =
     py_strip (foldl (\<lambda>t pattern. re_sub pattern t)
                 (py_join [SP] (py_split text))
                 (drop_last 3 noise_patterns))"

text \<open>\<^verbatim>\<open>\<box>\s*([^\n\<box>]+)\<close>, where \<^verbatim>\<open>\<box>\<close> stands for the checkbox glyph U+25A0\<close>
definition checkbox_pattern :: re where
  "checkbox_pattern = cat [Sym (Chr BOX), Star Space, Grp 1 (Plus (NoneOf [NL, BOX]))]"

text \<open>\<^verbatim>\<open>_\s*([^\n_]+?)(?=\s*_|\n|$)\<close>\<close>
definition inspection_pattern :: re where
  "inspection_pattern = cat [
     Sym (Chr USCORE), Star Space, Grp 1 (Rep (NoneOf [NL, USCORE]) False 1 None),
     Ahead (Alt (Seq (Star Space) (Sym (Chr USCORE))) (Alt (Sym (Chr NL)) Eos))]"

text \<open>
  The body of the first loop of \<^verbatim>\<open>_extract_items\<close>: what one checkbox match appends.
\<close>
definition checkbox_item :: "ustring \<Rightarrow> ustring option \<Rightarrow> rmatch \<Rightarrow> MaintenanceItem list" where
  "checkbox_item default_category cond m =
     (let service = clean_service_text (group m 1) in
      if service \<noteq> [] \<and> 3 < length service
      then [\<lparr>service = service,
             category = (if \<not> truthy cond then default_category
                         else ustr ''special_condition''),
             condition = cond\<rparr>]
      else [])"

text \<open>The body of the second loop: what one underscore match appends.\<close>
definition inspection_item :: "ustring option \<Rightarrow> rmatch \<Rightarrow> MaintenanceItem list" where
  "inspection_item cond m =
     (let service = clean_service_text (group m 1) in
      if service \<noteq> [] \<and> 3 < length service
      then [\<lparr>service = service, category = ustr ''inspection'', condition = cond\<rparr>]
      else [])"

definition extract_items :: "ustring \<Rightarrow> ustring \<Rightarrow> ustring option \<Rightarrow> MaintenanceItem list" where
  "extract_items text default_category cond =
     concat (map (checkbox_item default_category cond) (finditer checkbox_pattern text))
     @ concat (map (inspection_item cond) (finditer inspection_pattern text))"

text \<open>The first keyword of the table that occurs in the lowercased line gives the condition.\<close>
fun lookup_condition :: "(ustring \<times> ustring) list \<Rightarrow> ustring \<Rightarrow> ustring option" where
  "lookup_condition [] line_lower = None"
| "lookup_condition ((keyword, c) # rest) line_lower =
     (if contains keyword line_lower then Some c else lookup_condition rest line_lower)"

definition new_condition :: "ustring \<Rightarrow> ustring option" where
  "new_condition line = lookup_condition SPECIAL_CONDITIONS (py_lower line)"

text \<open>
  The state of the loop of \<^verbatim>\<open>_parse_special_conditions\<close>: the current condition, the
  current block of lines and the items so far.
\<close>
type_synonym psc_state = "ustring option \<times> ustring list \<times> MaintenanceItem list"

text \<open>What the loop and the code after it do with a block: the guarded call of \<^verbatim>\<open>_extract_items\<close>.\<close>
definition flush :: "ustring option \<Rightarrow> ustring list \<Rightarrow> MaintenanceItem list" where
  "flush current_condition current_block =
     (if current_block \<noteq> [] \<and> truthy current_condition
      then extract_items (py_join [NL] current_block) (ustr ''special_condition'')
             current_condition
      else [])"

fun psc_step :: "psc_state \<Rightarrow> ustring \<Rightarrow> psc_state" where
  "psc_step (current_condition, current_block, its) line =
     (if truthy (new_condition line) \<and> new_condition line \<noteq> current_condition
      then (new_condition line, [line], its @ flush current_condition current_block)
      else (current_condition, current_block @ [line], its))"

text \<open>What the code after the loop returns: the items, and those of the last block.\<close>
definition psc_result :: "psc_state \<Rightarrow> MaintenanceItem list" where
  "psc_result s = (case s of (current_condition, current_block, its) \<Rightarrow>
     its @ flush current_condition current_block)"

text \<open>The loop over the lines, and the last block after it.\<close>
definition psc_lines :: "ustring list \<Rightarrow> MaintenanceItem list" where
  "psc_lines lines = psc_result (foldl psc_step (None, [], []) lines)"

definition parse_special_conditions :: "ustring \<Rightarrow> MaintenanceItem list" where
  "parse_special_conditions text = psc_lines (split_chr NL text)"

definition SOC_MARKER :: ustring where
  "SOC_MARKER = ustr ''Special Operating Conditions''"

text \<open>
  \<^verbatim>\<open>_parse_items\<close>. (The attribute \<^verbatim>\<open>self.current_condition\<close> it resets is read nowhere.)
\<close>
definition parse_items :: "ustring \<Rightarrow> MaintenanceItem list" where
  "parse_items section_text =
     (if contains SOC_MARKER section_text
      then (case split_once SOC_MARKER section_text of
              [part0] \<Rightarrow> extract_items part0 (ustr ''standard'') None
            | part0 # part1 # _ \<Rightarrow>
                extract_items part0 (ustr ''standard'') None @ parse_special_conditions part1
            | [] \<Rightarrow> [])
      else extract_items section_text (ustr ''standard'') None)"

text \<open>
  The body of the loop of \<^verbatim>\<open>_split_by_intervals\<close> for the match number \<open>i\<close>: the key and
  the section text it stores, or None where the loop continues after a ValueError.
\<close>
definition section_entry :: "ustring \<Rightarrow> rmatch list \<Rightarrow> nat \<Rightarrow> ((int \<times> int) \<times> ustring) option" where
  "section_entry text matches i =
     (case py_int (filter (\<lambda>c. c \<noteq> COMMA) (group (matches ! i) 1)) of
        None \<Rightarrow> None
      | Some miles \<Rightarrow>
          (case py_int (group (matches ! i) 2) of
             None \<Rightarrow> None
           | Some months \<Rightarrow>
               Some ((miles, months),
                 slice text (m_end (matches ! i))
                   (if i + 1 < length matches then m_start (matches ! (i + 1))
                    else length text))))"

text \<open>
  What the loop of \<^verbatim>\<open>_split_by_intervals\<close> stores, one pair after the other: the key and
  the section text of every match, in the order of the document, but for the matches it
  skips.
\<close>
definition header_entries :: "ustring \<Rightarrow> ((int \<times> int) \<times> ustring) list" where
  "header_entries text =
     (let matches = finditer INTERVAL_PATTERN text in
      List.map_filter (section_entry text matches) [0..<length matches])"

text \<open>
  \<^verbatim>\<open>_split_by_intervals\<close>. The dictionary is an association list in insertion order: storing
  under a key it has replaces the value where the key stands, as a Python dict does.
\<close>
definition split_by_intervals :: "ustring \<Rightarrow> ((int \<times> int) \<times> ustring) list" where
  "split_by_intervals text =
     foldl (\<lambda>sections (k, section_text). AList.update k section_text sections)
       [] (header_entries text)"

text \<open>The body of the loop of \<^verbatim>\<open>_parse_intervals\<close>: the interval of one section.\<close>
definition section_interval :: "(int \<times> int) \<times> ustring \<Rightarrow> MaintenanceInterval" where
  "section_interval = (\<lambda>((miles, months), section_text).
     \<lparr>interval_miles = miles, interval_months = months, items = parse_items section_text\<rparr>)"

text \<open>
  \<^verbatim>\<open>_parse_intervals\<close>: the intervals with items, in the order of the dictionary, then
  Python's stable \<^verbatim>\<open>sorted\<close> by mileage.
\<close>
definition parse_intervals :: "ustring \<Rightarrow> MaintenanceInterval list" where
  "parse_intervals text =
     sort_key interval_miles
       (filter (\<lambda>interval. items interval \<noteq> [])
          (map section_interval (split_by_intervals text)))"

text \<open>An exception of the class \<^verbatim>\<open>Exception\<close>, which the handler of \<^verbatim>\<open>parse\<close> catches, and its message.\<close>
datatype exn = Exception ustring

text \<open>
  \<^verbatim>\<open>parse\<close>. Reading the PDF (\<^verbatim>\<open>_extract_text\<close>, through pdfplumber) is the environment's:
  \<open>extract_text\<close> gives the text of a path or the exception raised while reading it.
  \<open>pdf_path\<close> is the path as \<^verbatim>\<open>str(pdf_path)\<close>. The result is \<open>Inr\<close> of what \<^verbatim>\<open>parse\<close>
  returns, or \<open>Inl\<close> of an exception that leaves it.
\<close>
definition parse :: "(ustring \<Rightarrow> exn + ustring) \<Rightarrow> ustring \<Rightarrow> ustring \<Rightarrow> int
    \<Rightarrow> exn + MaintenanceSchedule" where
  "parse extract_text pdf_path mdl yr =
     (let schedule = \<lparr>make' = ustr ''Toyota'', model = mdl, year = yr, intervals = [],
                       source_pdf = Some pdf_path\<rparr>
      in case (case extract_text pdf_path of
                 Inl e \<Rightarrow> Inl e
               | Inr text \<Rightarrow> Inr (parse_intervals text)) of
           Inl e \<Rightarrow> Inr schedule
         | Inr ivs \<Rightarrow> Inr (schedule\<lparr>intervals := ivs\<rparr>))"


text \<open>The first step of \<^verbatim>\<open>_clean_service_text\<close>: \<^verbatim>\<open>' '.join(text.split())\<close>.\<close>
definition normalized :: "ustring \<Rightarrow> ustring" where
  "normalized t = py_join [SP] (py_split t)"

text \<open>A text without a run of white space: no two white space characters are adjacent.\<close>
fun collapsed :: "ustring \<Rightarrow> bool" where
  "collapsed [] = True"
| "collapsed [c] = True"
| "collapsed (a # b # cs) = (\<not> (isspace a \<and> isspace b) \<and> collapsed (b # cs))"

text \<open>An item that carries a condition: its category is inspection or special condition.\<close>
definition tagged :: "MaintenanceItem \<Rightarrow> bool" where
  "tagged it \<longleftrightarrow> condition it \<noteq> None
     \<and> (category it = ustr ''inspection'' \<or> category it = ustr ''special_condition'')"


section \<open>The standard schedule (\<^verbatim>\<open>toyota-maintenance-scraper/parsers/toyota_pdf.py\<close>)\<close>

text \<open>
  This module has dataclasses of its own under the names of the other module's; theirs
  and their fields carry the suffix \<open>_tp\<close> where the names would clash.
\<close>

record MaintenanceItem_tp =
  name :: ustring
  required :: bool
  special_conditions :: "ustring option"

record MaintenanceInterval_tp =
  mileage :: int
  months :: int
  items_tp :: "MaintenanceItem_tp list"
  special_operating_items :: "MaintenanceItem_tp list"

record MaintenanceSchedule_tp =
  source :: ustring
  model_tp :: ustring
  year_tp :: int
  intervals_tp :: "MaintenanceInterval_tp list"
  source_url :: ustring
  scraped_at :: ustring

definition MILEAGE_INTERVALS :: "(int \<times> int) list" where
  "MILEAGE_INTERVALS = [
     (5000, 6), (10000, 12), (15000, 18), (20000, 24), (25000, 30),
     (30000, 36), (35000, 42), (40000, 48), (45000, 54), (50000, 60),
     (55000, 66), (60000, 72), (65000, 78), (70000, 84), (75000, 90),
     (80000, 96), (85000, 102), (90000, 108), (95000, 114), (100000, 120),
     (105000, 126), (110000, 132), (115000, 138), (120000, 144)]"

text \<open>\<^verbatim>\<open>MaintenanceItem(name=s)\<close>, with the defaults of the other fields.\<close>
definition item :: "string \<Rightarrow> MaintenanceItem_tp" where
  "item s = \<lparr>name = ustr s, required = True, special_conditions = None\<rparr>"

text \<open>The list \<^verbatim>\<open>items\<close> that the loop body of \<^verbatim>\<open>get_standard_schedule\<close> builds for a mileage.\<close>
definition interval_items :: "int \<Rightarrow> MaintenanceItem_tp list" where
  "interval_items mlg =
     (let its = [item ''Rotate tires'',
                 item ''Inspect wiper blades'',
                 item ''Inspect and adjust all fluid levels'',
                 item ''Visually inspect brake system'',
                 item ''Check installation of driver's floor mat''];
          its = (if mlg mod 10000 = 0
                 then item ''Replace engine oil and oil filter'' # its
                      @ [item ''Replace cabin air filter'']
                 else its);
          its = (if mlg mod 30000 = 0
                 then its @ [item ''Replace engine air filter'',
                             item ''Inspect drive shaft boots'',
                             item ''Inspect ball joints and dust covers'',
                             item ''Inspect fuel system'']
                 else its);
          its = (if mlg mod 60000 = 0
                 then its @ [item ''Inspect drive belts'',
                             item ''Replace spark plugs (V6 only)'']
                 else its);
          its = (if mlg = 100000 then its @ [item ''Replace engine coolant''] else its);
          its = (if mlg = 120000 then its @ [item ''Replace spark plugs''] else its)
      in its)"

text \<open>
  A reading of the clock, \<^verbatim>\<open>datetime.utcnow()\<close>, with the fields of a Python datetime in
  their ranges (the year from 1 to 9999), and its \<^verbatim>\<open>isoformat()\<close>.
\<close>
record datetime =
  dt_year :: int
  dt_month :: int
  dt_day :: int
  dt_hour :: int
  dt_minute :: int
  dt_second :: int
  dt_microsecond :: int

text \<open>The last \<open>w\<close> decimal digits of a number.\<close>
fun digits :: "nat \<Rightarrow> int \<Rightarrow> ustring" where
  "digits 0 n = []"
| "digits (Suc w) n = digits w (n div 10) @ [48 + n mod 10]"

definition isoformat :: "datetime \<Rightarrow> ustring" where
  "isoformat d =
     digits 4 (dt_year d) @ ustr ''-'' @ digits 2 (dt_month d) @ ustr ''-''
     @ digits 2 (dt_day d) @ ustr ''T'' @ digits 2 (dt_hour d) @ ustr '':''
     @ digits 2 (dt_minute d) @ ustr '':'' @ digits 2 (dt_second d)
     @ (if dt_microsecond d = 0 then [] else ustr ''.'' @ digits 6 (dt_microsecond d))"

text \<open>
  \<^verbatim>\<open>get_standard_schedule\<close>. It reads the clock for \<^verbatim>\<open>scraped_at\<close>; \<open>utcnow\<close> is what the
  clock gives at the call.
\<close>
definition get_standard_schedule :: "datetime \<Rightarrow> ustring \<Rightarrow> int \<Rightarrow> ustring
    \<Rightarrow> MaintenanceSchedule_tp" where
  "get_standard_schedule utcnow mdl yr url =
     \<lparr>source = ustr ''toyota-standard'',
      model_tp = mdl,
      year_tp = yr,
      intervals_tp =
        map (\<lambda>(mlg, mths).
               \<lparr>mileage = mlg, months = mths, items_tp = interval_items mlg,
                special_operating_items = []\<rparr>)
          MILEAGE_INTERVALS,
      source_url = url,
      scraped_at = isoformat utcnow @ ustr ''Z''\<rparr>"


section \<open>Properties of the matcher\<close>

subsection \<open>The matches of \<^verbatim>\<open>finditer\<close> are in the order of the text\<close>

lemma match_at_start: "match_at r p xs = Some m \<Longrightarrow> m_start m = p"
  by (auto simp: match_at_def split: list.splits)

lemma finditer_from_found:
  "m \<in> set (finditer_from r skip p xs) \<Longrightarrow>
   \<exists>k. skip \<le> k \<and> k \<le> length xs \<and> m_start m = p + k \<and> match_at r (p + k) (drop k xs) = Some m"
proof (induction xs arbitrary: skip p)
  case Nil
  then have s: "skip = 0"
    by (cases "skip = 0") simp_all
  with Nil have "match_at r p [] = Some m"
    by (cases "match_at r p []") simp_all
  with s show ?case
    using match_at_start [of r p "[]" m] by simp
next
  case (Cons c cs)
  show ?case
  proof (cases "0 < skip")
    case True
    with Cons.prems have "m \<in> set (finditer_from r (skip - 1) (Suc p) cs)"
      by simp
    from Cons.IH [OF this] obtain k where "skip - 1 \<le> k" "k \<le> length cs"
      "m_start m = Suc p + k" "match_at r (Suc p + k) (drop k cs) = Some m"
      by blast
    with True show ?thesis
      by (intro exI [of _ "Suc k"]) auto
  next
    case False
    show ?thesis
    proof (cases "match_at r p (c # cs)")
      case None
      with False Cons.prems have "m \<in> set (finditer_from r 0 (Suc p) cs)"
        by simp
      from Cons.IH [OF this] obtain k where "k \<le> length cs"
        "m_start m = Suc p + k" "match_at r (Suc p + k) (drop k cs) = Some m"
        by blast
      with False show ?thesis
        by (intro exI [of _ "Suc k"]) auto
    next
      case (Some m')
      with False Cons.prems
      have "m = m' \<or> m \<in> set (finditer_from r (m_end m' - p - 1) (Suc p) cs)"
        by auto
      then show ?thesis
      proof
        assume "m = m'"
        with Some False show ?thesis
          using match_at_start [OF Some] by (intro exI [of _ 0]) auto
      next
        assume "m \<in> set (finditer_from r (m_end m' - p - 1) (Suc p) cs)"
        from Cons.IH [OF this] obtain k where "k \<le> length cs"
          "m_start m = Suc p + k" "match_at r (Suc p + k) (drop k cs) = Some m"
          by blast
        with False show ?thesis
          by (intro exI [of _ "Suc k"]) auto
      qed
    qed
  qed
qed

lemma finditer_from_sorted: "sorted_wrt (<) (map m_start (finditer_from r skip p xs))"
proof (induction xs arbitrary: skip p)
  case Nil
  then show ?case by (auto split: option.splits)
next
  case (Cons c cs)
  show ?case
  proof (cases "match_at r p (c # cs)")
    case None
    then show ?thesis using Cons.IH by simp
  next
    case (Some m')
    have "p < m_start m" if "m \<in> set (finditer_from r (m_end m' - p - 1) (Suc p) cs)" for m
      using finditer_from_found [OF that] by auto
    with Some show ?thesis
      using Cons.IH match_at_start [OF Some] by auto
  qed
qed

lemma finditer_sorted: "sorted_wrt (<) (map m_start (finditer r text))"
  unfolding finditer_def by (rule finditer_from_sorted)

lemma finditer_found:
  assumes "m \<in> set (finditer r text)"
  shows "m_start m \<le> length text \<and> match_at r (m_start m) (drop (m_start m) text) = Some m"
  using finditer_from_found [of m r 0 0 "text"] assms by (auto simp: finditer_def)

lemma match_at_first_char:
  assumes "match_at (Seq (Sym (Chr a)) r) p xs = Some m"
  shows "xs \<noteq> [] \<and> hd xs = a"
  using assms by (cases xs) (auto simp: match_at_def split: if_splits)

lemma finditer_marker:
  assumes "m \<in> set (finditer (Seq (Sym (Chr a)) r) text)"
  shows "m_start m < length text \<and> text ! m_start m = a"
proof -
  from finditer_found [OF assms] have le: "m_start m \<le> length text"
    and "match_at (Seq (Sym (Chr a)) r) (m_start m) (drop (m_start m) text) = Some m"
    by simp_all
  from match_at_first_char [OF this(2)]
  have "drop (m_start m) text \<noteq> []" and "hd (drop (m_start m) text) = a"
    by simp_all
  then show ?thesis
    by (simp add: hd_drop_conv_nth)
qed

subsection \<open>Substitution\<close>

lemma sub_from_skip: "sub_from r k p xs = sub_from r 0 (p + k) (drop k xs)"
proof (induction xs arbitrary: k p)
  case Nil
  then show ?case by simp
next
  case (Cons c cs)
  show ?case
  proof (cases k)
    case 0
    then show ?thesis by simp
  next
    case (Suc k')
    then show ?thesis using Cons.IH [of k' "Suc p"] by simp
  qed
qed

lemma sub_from_no_match:
  "(\<And>k. k \<le> length xs \<Longrightarrow> match_at r (p + k) (drop k xs) = None) \<Longrightarrow> sub_from r 0 p xs = xs"
proof (induction xs arbitrary: p)
  case Nil
  then show ?case by simp
next
  case (Cons c cs)
  from Cons.prems [of 0] have "match_at r p (c # cs) = None"
    by simp
  moreover have "sub_from r 0 (Suc p) cs = cs"
  proof (rule Cons.IH)
    fix k
    assume "k \<le> length cs"
    then show "match_at r (Suc p + k) (drop k cs) = None"
      using Cons.prems [of "Suc k"] by simp
  qed
  ultimately show ?case by simp
qed

lemma rep_star_hd:
  "rep c True 0 None p g xs \<noteq> []
   \<and> hd (rep c True 0 None p g xs)
     = (p + length (takeWhile (cmatch c) xs), dropWhile (cmatch c) xs, g)"
  by (induction xs arbitrary: p) simp_all

lemma cmatch_Digit: "cmatch Digit = isdigit"
  by (rule ext) simp

lemma cmatch_Space: "cmatch Space = isspace"
  by (rule ext) simp

lemma hd_concat_map:
  "xs \<noteq> [] \<Longrightarrow> f (hd xs) \<noteq> [] \<Longrightarrow> hd (concat (map f xs)) = hd (f (hd xs))"
  by (cases xs) simp_all

lemma concat_map_nonempty:
  "xs \<noteq> [] \<Longrightarrow> f (hd xs) \<noteq> [] \<Longrightarrow> concat (map f xs) \<noteq> []"
  by (cases xs) simp_all

lemma applied_noise_patterns: "drop_last 3 noise_patterns = [lead_pattern, paren_pattern]"
  by (simp add: drop_last_def noise_patterns_def lead_pattern_def paren_pattern_def)

lemma lead_not_at_start: "0 < p \<Longrightarrow> match_at lead_pattern p xs = None"
  by (simp add: match_at_def lead_pattern_def)

lemma lead_no_digit: "xs = [] \<or> \<not> isdigit (hd xs) \<Longrightarrow> match_at lead_pattern p xs = None"
  by (cases xs) (auto simp: match_at_def lead_pattern_def)

lemma lead_digit:
  assumes "isdigit x"
  shows "\<exists>g. match_at lead_pattern 0 (x # xs)
    = Some \<lparr>m_start = 0,
             m_end = Suc (length (takeWhile isdigit xs)
               + length (takeWhile isspace (dropWhile isdigit xs))),
             m_groups = g\<rparr>"
proof -
  let ?L = "rep Digit True 0 None (Suc 0) [] xs"
  let ?f = "ms (Star Space)"
  have L: "?L \<noteq> []" and hL: "hd ?L = (Suc 0 + length (takeWhile isdigit xs), dropWhile isdigit xs, [])"
    using rep_star_hd [of Digit "Suc 0" "[]" xs] by (simp_all add: cmatch_Digit del: rep.simps)
  have fh: "?f (hd ?L) \<noteq> []"
    and hfh: "hd (?f (hd ?L)) = (Suc 0 + length (takeWhile isdigit xs)
        + length (takeWhile isspace (dropWhile isdigit xs)),
        dropWhile isspace (dropWhile isdigit xs), [])"
    using rep_star_hd [of Space "Suc 0 + length (takeWhile isdigit xs)" "[]" "dropWhile isdigit xs"]
    by (simp_all add: hL cmatch_Space del: rep.simps)
  have ne: "concat (map ?f ?L) \<noteq> []"
    using L fh by (rule concat_map_nonempty)
  have hd: "hd (concat (map ?f ?L)) = hd (?f (hd ?L))"
    using L fh by (rule hd_concat_map)
  have "ms lead_pattern (0, x # xs, []) = concat (map ?f ?L)"
    using assms by (simp add: lead_pattern_def)
  with ne hd hfh show ?thesis
    by (cases "concat (map ?f ?L)") (auto simp: match_at_def)
qed

lemma re_sub_lead:
  "re_sub lead_pattern s
   = (if s \<noteq> [] \<and> isdigit (hd s) then dropWhile isspace (dropWhile isdigit s) else s)"
proof (cases "s \<noteq> [] \<and> isdigit (hd s)")
  case False
  then have "sub_from lead_pattern 0 0 s = s"
    by (cases s) (auto simp: lead_no_digit lead_not_at_start intro!: sub_from_no_match)
  with False show ?thesis
    by (auto simp: re_sub_def)
next
  case True
  then obtain x xs where s: "s = x # xs" and x: "isdigit x"
    by (cases s) auto
  let ?n = "length (takeWhile isdigit xs)"
  let ?k = "length (takeWhile isspace (dropWhile isdigit xs))"
  from lead_digit [OF x] obtain g where
    m: "match_at lead_pattern 0 (x # xs) = Some \<lparr>m_start = 0, m_end = Suc (?n + ?k), m_groups = g\<rparr>"
    by blast
  then have "sub_from lead_pattern 0 0 (x # xs) = sub_from lead_pattern (?n + ?k) (Suc 0) xs"
    by simp
  also have "\<dots> = sub_from lead_pattern 0 (Suc 0 + (?n + ?k)) (drop (?n + ?k) xs)"
    by (rule sub_from_skip)
  also have "\<dots> = drop (?n + ?k) xs"
    by (rule sub_from_no_match) (simp add: lead_not_at_start)
  also have "\<dots> = drop ?k (drop ?n xs)"
    by (simp add: add.commute)
  also have "\<dots> = drop ?k (dropWhile isdigit xs)"
    by (simp only: dropWhile_eq_drop [symmetric])
  also have "\<dots> = dropWhile isspace (dropWhile isdigit xs)"
    by (simp only: dropWhile_eq_drop [symmetric])
  finally show ?thesis
    using s x by (simp add: re_sub_def)
qed

lemma paren_no_match: "xs = [] \<or> hd xs \<noteq> LPAREN \<Longrightarrow> match_at paren_pattern p xs = None"
  by (cases xs) (auto simp: match_at_def paren_pattern_def)

lemma re_sub_paren: "LPAREN \<notin> set s \<Longrightarrow> re_sub paren_pattern s = s"
proof -
  assume a: "LPAREN \<notin> set s"
  have "sub_from paren_pattern 0 0 s = s"
  proof (rule sub_from_no_match)
    fix k
    assume "k \<le> length s"
    have "drop k s = [] \<or> hd (drop k s) \<noteq> LPAREN"
      using a by (metis hd_in_set in_set_dropD)
    then show "match_at paren_pattern (0 + k) (drop k s) = None"
      by (rule paren_no_match)
  qed
  then show ?thesis by (simp add: re_sub_def)
qed


section \<open>Properties of the string functions\<close>

lemma py_split_words:
  "w \<in> set (py_split t) \<Longrightarrow> w \<noteq> [] \<and> (\<forall>c \<in> set w. \<not> isspace c \<and> c \<in> set t)"
proof (induction t arbitrary: w)
  case Nil
  then show ?case by simp
next
  case (Cons c cs)
  show ?case
  proof (cases "isspace c")
    case True
    with Cons show ?thesis by auto
  next
    case False
    show ?thesis
    proof (cases "cs = [] \<or> isspace (hd cs)")
      case True
      with False Cons show ?thesis by auto
    next
      case b: False
      show ?thesis
      proof (cases "py_split cs")
        case Nil
        with False b Cons.prems show ?thesis by auto
      next
        case (Cons v vs)
        with False b Cons.prems have "w = c # v \<or> w \<in> set vs"
          by auto
        moreover have "v \<in> set (py_split cs)" and "set vs \<subseteq> set (py_split cs)"
          using Cons by auto
        ultimately show ?thesis
          using False Cons.IH by auto
      qed
    qed
  qed
qed

lemma py_join_set: "set (py_join sep ws) \<subseteq> set sep \<union> \<Union> (set ` set ws)"
  by (induction sep ws rule: py_join.induct) auto

lemma py_join_nonempty: "ws \<noteq> [] \<Longrightarrow> hd ws \<noteq> [] \<Longrightarrow> py_join sep ws \<noteq> []"
  by (induction sep ws rule: py_join.induct) auto

lemma py_join_hd: "ws \<noteq> [] \<Longrightarrow> hd ws \<noteq> [] \<Longrightarrow> hd (py_join sep ws) = hd (hd ws)"
  by (induction sep ws rule: py_join.induct) auto

lemma py_join_last:
  "ws \<noteq> [] \<Longrightarrow> \<forall>w \<in> set ws. w \<noteq> [] \<Longrightarrow> last (py_join sep ws) = last (last ws)"
proof (induction sep ws rule: py_join.induct)
  case (3 sep x y ys)
  then have "py_join sep (y # ys) \<noteq> []"
    using py_join_nonempty [of "y # ys" sep] by simp
  with 3 show ?case by simp
qed simp_all

lemma collapsed_word:
  "\<forall>c \<in> set w. \<not> isspace c \<Longrightarrow> collapsed s \<Longrightarrow> collapsed (w @ s)"
proof (induction w)
  case Nil
  then show ?case by simp
next
  case (Cons c w)
  then have "collapsed (w @ s)" and "\<not> isspace c"
    by simp_all
  then show ?case
    by (cases "w @ s") simp_all
qed

lemma collapsed_sep:
  "s \<noteq> [] \<Longrightarrow> \<not> isspace (hd s) \<Longrightarrow> collapsed s \<Longrightarrow> collapsed (SP # s)"
  by (cases s) simp_all

lemma py_join_collapsed:
  "\<forall>w \<in> set ws. w \<noteq> [] \<and> (\<forall>c \<in> set w. \<not> isspace c) \<Longrightarrow> collapsed (py_join [SP] ws)"
proof (induction "[SP]" ws rule: py_join.induct)
  case 1
  then show ?case by simp
next
  case (2 x)
  then show ?case
    using collapsed_word [of x "[]"] by simp
next
  case (3 x y ys)
  let ?s = "py_join [SP] (y # ys)"
  from 3 have "collapsed ?s"
    by simp
  moreover from 3 have "?s \<noteq> []" and "hd ?s = hd y"
    using py_join_nonempty [of "y # ys" "[SP]"] py_join_hd [of "y # ys" "[SP]"] by simp_all
  moreover from 3 have "\<not> isspace (hd y)"
    by (cases y) simp_all
  ultimately have "collapsed (SP # ?s)"
    using collapsed_sep by simp
  with 3 show ?case
    using collapsed_word [of x "SP # ?s"] by simp
qed

lemma collapsed_tl: "collapsed (a # s) \<Longrightarrow> collapsed s"
  by (cases s) simp_all

lemma collapsed_dropWhile: "collapsed s \<Longrightarrow> collapsed (dropWhile P s)"
  by (induction s) (auto dest: collapsed_tl)

lemma last_dropWhile: "dropWhile P s \<noteq> [] \<Longrightarrow> last (dropWhile P s) = last s"
  by (induction s) (auto split: if_splits)

lemma dropWhile_id: "xs = [] \<or> \<not> P (hd xs) \<Longrightarrow> dropWhile P xs = xs"
  by (cases xs) auto

lemma py_strip_id:
  assumes "s = [] \<or> (\<not> isspace (hd s) \<and> \<not> isspace (last s))"
  shows "py_strip s = s"
proof (cases s)
  case Nil
  then show ?thesis by (simp add: py_strip_def)
next
  case (Cons a as)
  with assms have h: "\<not> isspace a" and l: "\<not> isspace (last s)"
    by simp_all
  from h Cons have "dropWhile isspace s = s"
    by simp
  moreover have "hd (rev s) = last s"
    by (rule hd_rev)
  with l have "rev s = [] \<or> \<not> isspace (hd (rev s))"
    by simp
  then have "dropWhile isspace (rev s) = rev s"
    by (rule dropWhile_id)
  ultimately show ?thesis
    by (simp add: py_strip_def)
qed

lemma normalized_ends:
  "normalized t = [] \<or> (\<not> isspace (hd (normalized t)) \<and> \<not> isspace (last (normalized t)))"
proof (cases "py_split t")
  case Nil
  then show ?thesis by (simp add: normalized_def)
next
  case (Cons w ws)
  have words: "\<forall>v \<in> set (py_split t). v \<noteq> [] \<and> (\<forall>c \<in> set v. \<not> isspace c)"
    using py_split_words by blast
  with Cons have "w \<noteq> []" and "last (w # ws) \<noteq> []"
    by (simp_all)
  have "hd (normalized t) = hd w"
    using Cons words py_join_hd [of "w # ws" "[SP]"] by (simp add: normalized_def)
  moreover have "last (normalized t) = last (last (w # ws))"
    using Cons words py_join_last [of "w # ws" "[SP]"] by (simp add: normalized_def)
  moreover have "\<not> isspace (hd w)"
    using words Cons \<open>w \<noteq> []\<close> by (cases w) auto
  moreover have "\<not> isspace (last (last (w # ws)))"
  proof -
    have "last (w # ws) \<in> set (py_split t)"
      using Cons by (metis last_in_set list.discI)
    with words have "last (w # ws) \<noteq> [] \<and> (\<forall>c \<in> set (last (w # ws)). \<not> isspace c)"
      by blast
    then show ?thesis
      using last_in_set by blast
  qed
  ultimately show ?thesis by simp
qed

lemma normalized_set: "set (normalized t) \<subseteq> insert SP (set t)"
  using py_join_set [of "[SP]" "py_split t"] py_split_words [of _ t]
  by (auto simp: normalized_def)

lemma normalized_collapsed: "collapsed (normalized t)"
  unfolding normalized_def using py_split_words by (intro py_join_collapsed) blast

lemma normalized_spaces: "c \<in> set (normalized t) \<Longrightarrow> isspace c \<Longrightarrow> c = SP"
  using py_join_set [of "[SP]" "py_split t"] py_split_words [of _ t]
  by (auto simp: normalized_def)


section \<open>Properties of the parser\<close>

subsection \<open>The entry point\<close>

text \<open>
  Claim C10. \<^verbatim>\<open>parse\<close> raises nothing, whatever reading the document does: it returns a
  schedule of make Toyota with the model, year and path it was given, with no interval
  when reading the document raised an exception, and with the parsed intervals otherwise.
\<close>
theorem parse_never_raises:
  "\<exists>sch. parse extract_text pdf_path mdl yr = Inr sch
      \<and> make' sch = ustr ''Toyota'' \<and> model sch = mdl \<and> year sch = yr
      \<and> source_pdf sch = Some pdf_path
      \<and> (\<forall>e. extract_text pdf_path = Inl e \<longrightarrow> intervals sch = [])
      \<and> (\<forall>text. extract_text pdf_path = Inr text \<longrightarrow> intervals sch = parse_intervals text)"
  by (cases "extract_text pdf_path") (simp_all add: parse_def)

theorem parse_never_raises_witness:
  "parse (\<lambda>p. Inl (Exception (ustr ''No such file''))) (ustr ''camry.pdf'') (ustr ''Camry'') 2024
   = Inr \<lparr>make' = ustr ''Toyota'', model = ustr ''Camry'', year = 2024, intervals = [],
          source_pdf = Some (ustr ''camry.pdf'')\<rparr>"
  using parse_never_raises [of "\<lambda>p. Inl (Exception (ustr ''No such file''))" "ustr ''camry.pdf''"
      "ustr ''Camry''" 2024]
  by (auto simp: parse_def)

subsection \<open>No header\<close>

lemma split_by_intervals_no_match:
  "finditer INTERVAL_PATTERN text = [] \<Longrightarrow> split_by_intervals text = []"
  by (simp add: split_by_intervals_def header_entries_def map_filter_simps)

lemma finditer_empty_text: "finditer INTERVAL_PATTERN [] = []"
  by code_simp

text \<open>
  Claim C9. For the empty text \<^verbatim>\<open>_parse_intervals\<close> returns the empty list, and for a text
  in which the header pattern matches nowhere it returns the same.
\<close>
theorem parse_intervals_empty:
  "parse_intervals [] = []
   \<and> (finditer INTERVAL_PATTERN text = [] \<longrightarrow> parse_intervals text = parse_intervals [])"
  by (simp add: parse_intervals_def split_by_intervals_no_match finditer_empty_text)

theorem parse_intervals_empty_witness:
  "finditer INTERVAL_PATTERN (ustr ''Rotate tires every 5 months'') = []
   \<and> parse_intervals (ustr ''Rotate tires every 5 months'') = []"
proof -
  have "finditer INTERVAL_PATTERN (ustr ''Rotate tires every 5 months'') = []"
    by code_simp
  with parse_intervals_empty [of "ustr ''Rotate tires every 5 months''"] show ?thesis
    by simp
qed

subsection \<open>Cleaning the text of an item\<close>

lemma re_sub_lead_normalized:
  "re_sub lead_pattern (normalized t) = dropWhile isspace (dropWhile isdigit (normalized t))"
proof (cases "normalized t \<noteq> [] \<and> isdigit (hd (normalized t))")
  case True
  then show ?thesis by (simp add: re_sub_lead)
next
  case False
  then have "dropWhile isdigit (normalized t) = normalized t"
    by (intro dropWhile_id) blast
  moreover have "dropWhile isspace (normalized t) = normalized t"
    using normalized_ends [of t] by (intro dropWhile_id) blast
  ultimately show ?thesis
    using False by (simp add: re_sub_lead)
qed

lemma clean_service_text_steps:
  "clean_service_text t
   = py_strip (re_sub paren_pattern (dropWhile isspace (dropWhile isdigit (normalized t))))"
  by (simp add: clean_service_text_def applied_noise_patterns re_sub_lead_normalized
      flip: normalized_def)

lemma stripped_ends:
  fixes t
  defines "x \<equiv> dropWhile isspace (dropWhile isdigit (normalized t))"
  shows "x = [] \<or> (\<not> isspace (hd x) \<and> \<not> isspace (last x))"
proof (cases "x = []")
  case True
  then show ?thesis by simp
next
  case False
  then have h: "\<not> isspace (hd x)"
    unfolding x_def by (rule hd_dropWhile)
  have d: "dropWhile isdigit (normalized t) \<noteq> []"
  proof
    assume "dropWhile isdigit (normalized t) = []"
    then have "x = []"
      by (simp only: x_def dropWhile.simps)
    with False show False ..
  qed
  have n: "normalized t \<noteq> []"
  proof
    assume "normalized t = []"
    then have "dropWhile isdigit (normalized t) = []"
      by (simp only: dropWhile.simps)
    with d show False ..
  qed
  from False have "last x = last (dropWhile isdigit (normalized t))"
    unfolding x_def by (rule last_dropWhile)
  also from d have "\<dots> = last (normalized t)"
    by (rule last_dropWhile)
  finally have "\<not> isspace (last x)"
    using normalized_ends [of t] n by simp
  with h show ?thesis by simp
qed

lemma clean_service_text_no_paren:
  assumes "LPAREN \<notin> set t"
  shows "clean_service_text t = dropWhile isspace (dropWhile isdigit (normalized t))"
proof -
  let ?x = "dropWhile isspace (dropWhile isdigit (normalized t))"
  have "set ?x \<subseteq> set (normalized t)"
    by (meson set_dropWhileD subsetI)
  with assms normalized_set [of t] have "LPAREN \<notin> set ?x"
    by auto
  then have "re_sub paren_pattern ?x = ?x"
    by (rule re_sub_paren)
  moreover have "py_strip ?x = ?x"
    using stripped_ends [of t] by (rule py_strip_id)
  ultimately show ?thesis
    by (simp add: clean_service_text_steps)
qed

text \<open>
  Claim C5, as stated: cleaning strips the footer boilerplate (the verification stamp and
  the labels Date: and Mileage:) from the service name. The loop applies only the first
  two of the five noise patterns, so a text of such boilerplate comes back as it is.
\<close>
theorem clean_service_text_footer_counterexample:
  "clean_service_text (ustr ''Rotate tires Dealer Service Verification Date: 1/2 Mileage: 5000'')
   = ustr ''Rotate tires Dealer Service Verification Date: 1/2 Mileage: 5000''
   \<and> contains (ustr ''Dealer Service Verification'')
       (clean_service_text
          (ustr ''Rotate tires Dealer Service Verification Date: 1/2 Mileage: 5000''))
   \<and> contains (ustr ''Date:'')
       (clean_service_text
          (ustr ''Rotate tires Dealer Service Verification Date: 1/2 Mileage: 5000''))
   \<and> contains (ustr ''Mileage:'')
       (clean_service_text
          (ustr ''Rotate tires Dealer Service Verification Date: 1/2 Mileage: 5000''))"
  by code_simp

text \<open>
  Claim C5, amended. \<^verbatim>\<open>_clean_service_text\<close> joins the words of the text with single
  spaces, removes one leading run of digits and the white space after it, removes the
  matches of the pattern of parenthesised notes, and strips the ends; it applies no
  pattern for the footer boilerplate. For a text without an opening parenthesis the result
  is the words joined with single spaces, without a leading run of digits: no two white
  space characters are adjacent in it, every white space character in it is a space, and
  a verification stamp or a label Date: or Mileage: stays in it.
\<close>
theorem clean_service_text_result:
  "clean_service_text text
     = py_strip (re_sub paren_pattern
         (dropWhile isspace (dropWhile isdigit (py_join [SP] (py_split text)))))
   \<and> (LPAREN \<notin> set text \<longrightarrow>
        clean_service_text text
          = dropWhile isspace (dropWhile isdigit (py_join [SP] (py_split text)))
        \<and> collapsed (clean_service_text text)
        \<and> (\<forall>c \<in> set (clean_service_text text). isspace c \<longrightarrow> c = SP))"
proof (intro conjI impI)
  show "clean_service_text text
     = py_strip (re_sub paren_pattern
         (dropWhile isspace (dropWhile isdigit (py_join [SP] (py_split text)))))"
    using clean_service_text_steps [of "text"] by (simp add: normalized_def)
next
  assume a: "LPAREN \<notin> set text"
  from clean_service_text_no_paren [OF a]
  show eq: "clean_service_text text
      = dropWhile isspace (dropWhile isdigit (py_join [SP] (py_split text)))"
    by (simp add: normalized_def)
  have "collapsed (dropWhile isspace (dropWhile isdigit (normalized text)))"
    by (intro collapsed_dropWhile normalized_collapsed)
  then show "collapsed (clean_service_text text)"
    using eq by (simp add: normalized_def)
  show "\<forall>c \<in> set (clean_service_text text). isspace c \<longrightarrow> c = SP"
  proof (intro ballI impI)
    fix c
    assume "c \<in> set (clean_service_text text)" and s: "isspace c"
    then have "c \<in> set (normalized text)"
      using eq by (auto simp: normalized_def dest!: set_dropWhileD)
    then show "c = SP"
      using s by (rule normalized_spaces)
  qed
qed

theorem clean_service_text_result_witness:
  "LPAREN \<notin> set (ustr ''12  Rotate   tires Date: 5 '')
   \<and> clean_service_text (ustr ''12  Rotate   tires Date: 5 '') = ustr ''Rotate tires Date: 5''
   \<and> collapsed (ustr ''Rotate tires Date: 5'')"
proof -
  let ?t = "ustr ''12  Rotate   tires Date: 5 ''"
  have a: "LPAREN \<notin> set ?t"
    by code_simp
  have b: "dropWhile isspace (dropWhile isdigit (py_join [SP] (py_split ?t)))
      = ustr ''Rotate tires Date: 5''"
    by code_simp
  from clean_service_text_result [of ?t] a have e: "clean_service_text ?t
          = dropWhile isspace (dropWhile isdigit (py_join [SP] (py_split ?t)))"
    and f: "collapsed (clean_service_text ?t)"
    by blast+
  from e b have g: "clean_service_text ?t = ustr ''Rotate tires Date: 5''"
    by simp
  with f have "collapsed (ustr ''Rotate tires Date: 5'')"
    by simp
  with a g show ?thesis
    by blast
qed

subsection \<open>The order of the items\<close>

lemma checkbox_pattern_marker: "\<exists>r. checkbox_pattern = Seq (Sym (Chr BOX)) r"
  by (simp add: checkbox_pattern_def)

lemma inspection_pattern_marker: "\<exists>r. inspection_pattern = Seq (Sym (Chr USCORE)) r"
  by (simp add: inspection_pattern_def)

text \<open>
  Claim C8, as stated: the items are in the order in which their markers stand in the
  text. \<^verbatim>\<open>_extract_items\<close> appends the checkbox items in a first loop and the underscore
  items in a second one, so an underscore item that stands before a checkbox item comes
  after it in the list.
\<close>
theorem extract_items_order_counterexample:
  "extract_items (ustr ''_ Inspect hoses'' @ [NL, BOX] @ ustr '' Rotate tires'')
     (ustr ''standard'') None
   = [\<lparr>service = ustr ''Rotate tires'', category = ustr ''standard'', condition = None\<rparr>,
      \<lparr>service = ustr ''Inspect hoses'', category = ustr ''inspection'', condition = None\<rparr>]
   \<and> map m_start (finditer inspection_pattern
        (ustr ''_ Inspect hoses'' @ [NL, BOX] @ ustr '' Rotate tires'')) = [0]
   \<and> map m_start (finditer checkbox_pattern
        (ustr ''_ Inspect hoses'' @ [NL, BOX] @ ustr '' Rotate tires'')) = [16]"
  by code_simp

text \<open>
  Claim C8, amended. The list that \<^verbatim>\<open>_extract_items\<close> returns has the items of the
  checkbox matches first, in the order of the matches, then the items of the underscore
  matches, in the order of the matches. The matches of either pattern are in the order of
  the text (the positions at which they start are strictly ascending), and each starts at
  a marker of its kind.
\<close>
theorem extract_items_order:
  "extract_items text d c
     = concat (map (checkbox_item d c) (finditer checkbox_pattern text))
       @ concat (map (inspection_item c) (finditer inspection_pattern text))
   \<and> sorted_wrt (<) (map m_start (finditer checkbox_pattern text))
   \<and> (\<forall>m \<in> set (finditer checkbox_pattern text).
        m_start m < length text \<and> text ! m_start m = BOX)
   \<and> sorted_wrt (<) (map m_start (finditer inspection_pattern text))
   \<and> (\<forall>m \<in> set (finditer inspection_pattern text).
        m_start m < length text \<and> text ! m_start m = USCORE)"
proof -
  obtain r1 where r1: "checkbox_pattern = Seq (Sym (Chr BOX)) r1"
    using checkbox_pattern_marker by blast
  obtain r2 where r2: "inspection_pattern = Seq (Sym (Chr USCORE)) r2"
    using inspection_pattern_marker by blast
  have "\<forall>m \<in> set (finditer checkbox_pattern text).
        m_start m < length text \<and> text ! m_start m = BOX"
    unfolding r1 using finditer_marker by blast
  moreover have "\<forall>m \<in> set (finditer inspection_pattern text).
        m_start m < length text \<and> text ! m_start m = USCORE"
    unfolding r2 using finditer_marker by blast
  ultimately show ?thesis
    using finditer_sorted by (simp add: extract_items_def)
qed

theorem extract_items_order_witness:
  "map m_start (finditer checkbox_pattern
     ([BOX] @ ustr '' Rotate tires'' @ [NL] @ ustr ''_ Inspect hoses'' @ [NL, BOX]
      @ ustr '' Inspect brakes'')) = [0, 31]
   \<and> map m_start (finditer inspection_pattern
     ([BOX] @ ustr '' Rotate tires'' @ [NL] @ ustr ''_ Inspect hoses'' @ [NL, BOX]
      @ ustr '' Inspect brakes'')) = [15]
   \<and> extract_items
     ([BOX] @ ustr '' Rotate tires'' @ [NL] @ ustr ''_ Inspect hoses'' @ [NL, BOX]
      @ ustr '' Inspect brakes'') (ustr ''standard'') None
   = [\<lparr>service = ustr ''Rotate tires'', category = ustr ''standard'', condition = None\<rparr>,
      \<lparr>service = ustr ''Inspect brakes'', category = ustr ''standard'', condition = None\<rparr>,
      \<lparr>service = ustr ''Inspect hoses'', category = ustr ''inspection'', condition = None\<rparr>]"
proof -
  let ?t = "[BOX] @ ustr '' Rotate tires'' @ [NL] @ ustr ''_ Inspect hoses'' @ [NL, BOX]
      @ ustr '' Inspect brakes''"
  have a: "map m_start (finditer checkbox_pattern ?t) = [0, 31]"
    by code_simp
  have b: "map m_start (finditer inspection_pattern ?t) = [15]"
    by code_simp
  have c: "concat (map (checkbox_item (ustr ''standard'') None) (finditer checkbox_pattern ?t))
       @ concat (map (inspection_item None) (finditer inspection_pattern ?t))
   = [\<lparr>service = ustr ''Rotate tires'', category = ustr ''standard'', condition = None\<rparr>,
      \<lparr>service = ustr ''Inspect brakes'', category = ustr ''standard'', condition = None\<rparr>,
      \<lparr>service = ustr ''Inspect hoses'', category = ustr ''inspection'', condition = None\<rparr>]"
    by code_simp
  from extract_items_order [of ?t "ustr ''standard''" None] have
    "extract_items ?t (ustr ''standard'') None
     = concat (map (checkbox_item (ustr ''standard'') None) (finditer checkbox_pattern ?t))
       @ concat (map (inspection_item None) (finditer inspection_pattern ?t))"
    by (rule conjunct1)
  with a b c show ?thesis
    by simp
qed


subsection \<open>The special operating conditions\<close>

lemma lookup_condition_nonempty:
  "lookup_condition tab l = Some c \<Longrightarrow> list_all (\<lambda>(k, c). c \<noteq> []) tab \<Longrightarrow> c \<noteq> []"
  by (induction tab l rule: lookup_condition.induct) (auto split: if_splits)

lemma SPECIAL_CONDITIONS_nonempty: "list_all (\<lambda>(k, c). c \<noteq> []) SPECIAL_CONDITIONS"
  by code_simp

lemma new_condition_truthy: "truthy (new_condition l) \<longleftrightarrow> new_condition l \<noteq> None"
proof (cases "new_condition l")
  case None
  then show ?thesis by simp
next
  case (Some c)
  then have "c \<noteq> []"
    unfolding new_condition_def
    by (rule lookup_condition_nonempty) (rule SPECIAL_CONDITIONS_nonempty)
  with Some show ?thesis by simp
qed

lemma flush_None [simp]: "flush None b = []"
  by (simp add: flush_def)

lemma psc_block_irrelevant:
  "psc_result (foldl psc_step (None, b1, its) ls) = psc_result (foldl psc_step (None, b2, its) ls)"
proof (induction ls arbitrary: b1 b2)
  case Nil
  then show ?case by (simp add: psc_result_def)
next
  case (Cons l ls)
  show ?case
  proof (cases "new_condition l")
    case None
    then show ?thesis using Cons.IH [of "b1 @ [l]" "b2 @ [l]"] by simp
  next
    case (Some c)
    with new_condition_truthy [of l] have "c \<noteq> []"
      by simp
    with Some show ?thesis by simp
  qed
qed

lemma psc_no_keyword:
  "\<forall>l \<in> set pre. new_condition l = None \<Longrightarrow>
   foldl psc_step (None, b, its) pre = (None, b @ pre, its)"
  by (induction pre arbitrary: b) simp_all

lemma psc_lines_drop_prefix:
  assumes "\<forall>l \<in> set pre. new_condition l = None"
  shows "psc_lines (pre @ rest) = psc_lines rest"
proof -
  have "psc_lines (pre @ rest) = psc_result (foldl psc_step (None, [] @ pre, []) rest)"
    using psc_no_keyword [OF assms, of "[]" "[]"] by (simp add: psc_lines_def psc_result_def)
  also have "\<dots> = psc_result (foldl psc_step (None, [], []) rest)"
    by (rule psc_block_irrelevant)
  finally show ?thesis by (simp add: psc_lines_def)
qed

lemma psc_lines_no_keyword:
  assumes "\<forall>l \<in> set ls. new_condition l = None"
  shows "psc_lines ls = []"
  using psc_no_keyword [OF assms, of "[]" "[]"] by (simp add: psc_lines_def psc_result_def)

lemma psc_step_flush:
  assumes "psc_step (cc, cb, its) line = (cc', cb', its')" and "its' \<noteq> its"
  shows "truthy cc \<and> new_condition line \<noteq> None \<and> new_condition line \<noteq> cc
    \<and> its' = its @ extract_items (py_join [NL] cb) (ustr ''special_condition'') cc"
proof (cases "truthy (new_condition line) \<and> new_condition line \<noteq> cc")
  case True
  with assms have its': "its' = its @ flush cc cb"
    by simp
  with assms(2) have "flush cc cb \<noteq> []"
    by simp
  then have "truthy cc" and "flush cc cb
      = extract_items (py_join [NL] cb) (ustr ''special_condition'') cc"
    by (simp_all add: flush_def split: if_splits)
  with True its' show ?thesis
    by (simp add: new_condition_truthy)
next
  case False
  with assms show ?thesis
    by auto
qed

text \<open>
  Claim C7. In \<^verbatim>\<open>_parse_special_conditions\<close>: lines before the first line with a
  condition keyword give no item (the result is that of the lines after them); a step of
  the loop adds items only when a current condition is set and the line has the keyword
  of another condition, and then the items are those of the current block under the
  current condition; and a text in which no line has a keyword gives no item.
\<close>
theorem special_conditions_grouping:
  "((\<forall>l \<in> set pre. new_condition l = None) \<longrightarrow> psc_lines (pre @ rest) = psc_lines rest)
   \<and> (psc_step (cc, cb, its) line = (cc', cb', its') \<and> its' \<noteq> its \<longrightarrow>
        truthy cc \<and> new_condition line \<noteq> None \<and> new_condition line \<noteq> cc
        \<and> its' = its @ extract_items (py_join [NL] cb) (ustr ''special_condition'') cc)
   \<and> ((\<forall>l \<in> set (split_chr NL text). new_condition l = None) \<longrightarrow>
        parse_special_conditions text = [])"
proof (intro conjI impI)
  assume "\<forall>l \<in> set pre. new_condition l = None"
  then show "psc_lines (pre @ rest) = psc_lines rest"
    by (rule psc_lines_drop_prefix)
next
  assume "\<forall>l \<in> set (split_chr NL text). new_condition l = None"
  then show "parse_special_conditions text = []"
    unfolding parse_special_conditions_def by (rule psc_lines_no_keyword)
next
  assume a: "psc_step (cc, cb, its) line = (cc', cb', its') \<and> its' \<noteq> its"
  from psc_step_flush [of cc cb its line cc' cb' its'] a
  have r: "truthy cc \<and> new_condition line \<noteq> None \<and> new_condition line \<noteq> cc
    \<and> its' = its @ extract_items (py_join [NL] cb) (ustr ''special_condition'') cc"
    by blast
  from r show "truthy cc" by blast
  from r show "new_condition line \<noteq> None" by blast
  from r show "new_condition line \<noteq> cc" by blast
  from r show "its' = its @ extract_items (py_join [NL] cb) (ustr ''special_condition'') cc"
    by blast
qed

theorem special_conditions_grouping_witness:
  "new_condition (ustr ''Notes'') = None
   \<and> psc_lines ([ustr ''Notes''] @ [ustr ''Driving on dusty roads'', [BOX] @ ustr '' Replace air filter''])
     = psc_lines [ustr ''Driving on dusty roads'', [BOX] @ ustr '' Replace air filter'']
   \<and> psc_lines [ustr ''Driving on dusty roads'', [BOX] @ ustr '' Replace air filter'']
     = [\<lparr>service = ustr ''Replace air filter'', category = ustr ''special_condition'',
         condition = Some (ustr ''dusty_roads'')\<rparr>]
   \<and> psc_step (Some (ustr ''dusty_roads''),
        [ustr ''Driving on dusty roads'', [BOX] @ ustr '' Replace air filter''], [])
        (ustr ''Driving while towing'')
     = (Some (ustr ''towing''), [ustr ''Driving while towing''],
        [\<lparr>service = ustr ''Replace air filter'', category = ustr ''special_condition'',
          condition = Some (ustr ''dusty_roads'')\<rparr>])
   \<and> new_condition (ustr ''Driving while towing'') = Some (ustr ''towing'')
   \<and> parse_special_conditions (ustr ''Notes'' @ [NL, BOX] @ ustr '' Rotate tires'') = []"
proof -
  let ?pre = "[ustr ''Notes'']"
  let ?rest = "[ustr ''Driving on dusty roads'', [BOX] @ ustr '' Replace air filter'']"
  let ?it = "\<lparr>service = ustr ''Replace air filter'', category = ustr ''special_condition'',
         condition = Some (ustr ''dusty_roads'')\<rparr>"
  let ?line = "ustr ''Driving while towing''"
  let ?text = "ustr ''Notes'' @ [NL, BOX] @ ustr '' Rotate tires''"
  note c7 = special_conditions_grouping [of ?pre ?rest "Some (ustr ''dusty_roads'')" ?rest "[]"
      ?line "Some (ustr ''towing'')" "[?line]" "[?it]" ?text]
  have n: "new_condition (ustr ''Notes'') = None"
    by code_simp
  have pre: "\<forall>l \<in> set ?pre. new_condition l = None"
    using n by simp
  have step: "psc_step (Some (ustr ''dusty_roads''), ?rest, []) ?line
      = (Some (ustr ''towing''), [?line], [?it]) \<and> [?it] \<noteq> []"
    by code_simp
  have nokw: "\<forall>l \<in> set (split_chr NL ?text). new_condition l = None"
    by code_simp
  have ev: "psc_lines ?rest = [?it]"
    by code_simp
  from c7 pre have a: "psc_lines (?pre @ ?rest) = psc_lines ?rest"
    by blast
  have b: "new_condition ?line = Some (ustr ''towing'')"
    by code_simp
  from c7 nokw have c: "parse_special_conditions ?text = []"
    by blast
  from n a ev step b c show ?thesis
    by blast
qed

subsection \<open>Categories and conditions\<close>

lemma category_distinct:
  "ustr ''standard'' \<noteq> ustr ''special_condition''"
  "ustr ''standard'' \<noteq> ustr ''inspection''"
  "ustr ''inspection'' \<noteq> ustr ''special_condition''"
  by (simp_all add: ustr_def)

lemma checkbox_item_fields:
  "it \<in> set (checkbox_item d c m) \<Longrightarrow>
   condition it = c \<and> category it = (if truthy c then ustr ''special_condition'' else d)"
  by (auto simp: checkbox_item_def Let_def split: if_splits)

lemma inspection_item_fields:
  "it \<in> set (inspection_item c m) \<Longrightarrow> condition it = c \<and> category it = ustr ''inspection''"
  by (auto simp: inspection_item_def Let_def split: if_splits)

lemma extract_items_fields:
  assumes "it \<in> set (extract_items t d c)"
  shows "condition it = c
    \<and> (category it = ustr ''inspection''
        \<or> category it = (if truthy c then ustr ''special_condition'' else d))"
proof -
  from assms have "(\<exists>m. it \<in> set (checkbox_item d c m)) \<or> (\<exists>m. it \<in> set (inspection_item c m))"
    unfolding extract_items_def by auto
  then show ?thesis
  proof
    assume "\<exists>m. it \<in> set (checkbox_item d c m)"
    then obtain m where "it \<in> set (checkbox_item d c m)" ..
    from checkbox_item_fields [OF this] show ?thesis by simp
  next
    assume "\<exists>m. it \<in> set (inspection_item c m)"
    then obtain m where "it \<in> set (inspection_item c m)" ..
    from inspection_item_fields [OF this] show ?thesis by simp
  qed
qed

lemma flush_fields:
  assumes "it \<in> set (flush cc cb)"
  shows "condition it \<noteq> None
    \<and> (category it = ustr ''inspection'' \<or> category it = ustr ''special_condition'')"
proof -
  from assms have t: "truthy cc"
    and "it \<in> set (extract_items (py_join [NL] cb) (ustr ''special_condition'') cc)"
    by (simp_all add: flush_def split: if_splits)
  from extract_items_fields [OF this(2)] t show ?thesis
    by (cases cc) auto
qed

lemma flush_tagged: "it \<in> set (flush cc cb) \<Longrightarrow> tagged it"
  using flush_fields [of it cc cb] by (simp add: tagged_def)

lemma psc_step_tagged:
  assumes "\<forall>it \<in> set its. tagged it" and "psc_step (cc, cb, its) l = (cc', cb', its')"
  shows "\<forall>it \<in> set its'. tagged it"
proof (cases "truthy (new_condition l) \<and> new_condition l \<noteq> cc")
  case True
  with assms(2) have "its' = its @ flush cc cb"
    by simp
  with assms(1) show ?thesis
    using flush_tagged by auto
next
  case False
  with assms(2) have "its' = its"
    by auto
  with assms(1) show ?thesis
    by simp
qed

lemma psc_foldl_tagged:
  "\<forall>it \<in> set its. tagged it \<Longrightarrow> foldl psc_step (cc, cb, its) ls = (cc', cb', its') \<Longrightarrow>
   \<forall>it \<in> set its'. tagged it"
proof (induction ls arbitrary: cc cb its)
  case Nil
  then show ?case by simp
next
  case (Cons l ls)
  obtain cc1 cb1 its1 where s: "psc_step (cc, cb, its) l = (cc1, cb1, its1)"
    by (cases "psc_step (cc, cb, its) l") auto
  from psc_step_tagged [OF Cons.prems(1) s] have "\<forall>it \<in> set its1. tagged it" .
  moreover from Cons.prems(2) s have "foldl psc_step (cc1, cb1, its1) ls = (cc', cb', its')"
    by simp
  ultimately show ?case by (rule Cons.IH)
qed

lemma psc_lines_tagged: "it \<in> set (psc_lines ls) \<Longrightarrow> tagged it"
proof -
  assume a: "it \<in> set (psc_lines ls)"
  obtain cc cb its where s: "foldl psc_step (None, [], []) ls = (cc, cb, its)"
    by (cases "foldl psc_step (None, [], []) ls") auto
  have "\<forall>it \<in> set its. tagged it"
    by (rule psc_foldl_tagged [OF _ s]) simp
  moreover from a s have "it \<in> set its \<or> it \<in> set (flush cc cb)"
    by (simp add: psc_lines_def psc_result_def)
  ultimately show "tagged it"
    using flush_fields [of it cc cb] by (auto simp: tagged_def)
qed

lemma parse_items_fields:
  assumes "it \<in> set (parse_items sec)"
  shows "(condition it = None
          \<and> (category it = ustr ''standard'' \<or> category it = ustr ''inspection''))
       \<or> tagged it"
proof -
  have "set (parse_items sec) \<subseteq>
      (\<Union>t. set (extract_items t (ustr ''standard'') None))
      \<union> (\<Union>t. set (parse_special_conditions t))"
    by (cases "py_find SOC_MARKER sec") (auto simp: parse_items_def split_once_def)
  with assms have "(\<exists>t. it \<in> set (extract_items t (ustr ''standard'') None))
      \<or> (\<exists>t. it \<in> set (parse_special_conditions t))"
    by auto
  then show ?thesis
  proof
    assume "\<exists>t. it \<in> set (extract_items t (ustr ''standard'') None)"
    then obtain t where "it \<in> set (extract_items t (ustr ''standard'') None)" ..
    from extract_items_fields [OF this] show ?thesis by auto
  next
    assume "\<exists>t. it \<in> set (parse_special_conditions t)"
    then show ?thesis
      using psc_lines_tagged by (auto simp: parse_special_conditions_def)
  qed
qed

lemma parse_intervals_items:
  "iv \<in> set (parse_intervals text) \<Longrightarrow>
   \<exists>k sec. (k, sec) \<in> set (split_by_intervals text) \<and> iv = section_interval (k, sec)"
  by (auto simp: parse_intervals_def)

lemma items_section_interval: "items (section_interval (k, sec)) = parse_items sec"
  by (cases k) (simp add: section_interval_def)

text \<open>
  Claim C1, as stated: an item whose category is not special condition has no condition.
  An underscore item under a condition keyword keeps the category inspection and gets
  the condition of its block.
\<close>
theorem inspection_item_condition_counterexample:
  "parse_intervals
     (ustr ''5,000 miles or 6 months'' @ [NL]
      @ ustr ''Special Operating Conditions'' @ [NL] @ ustr ''Driving on dusty roads'' @ [NL]
      @ ustr ''_ Inspect air filter'')
   = [\<lparr>interval_miles = 5000, interval_months = 6,
       items = [\<lparr>service = ustr ''Inspect air filter'', category = ustr ''inspection'',
                 condition = Some (ustr ''dusty_roads'')\<rparr>]\<rparr>]
   \<and> ustr ''inspection'' \<noteq> ustr ''special_condition''"
  by code_simp

text \<open>
  Claim C1, amended. In every interval that \<^verbatim>\<open>_parse_intervals\<close> returns, an item of
  category standard has no condition, an item of category special condition has one, and
  there is no fourth category. An item of category inspection has no condition when it
  comes from the standard body (every item from there has none) and has the condition of
  its block when it comes from the part after the marker of the special operating
  conditions (every item from there has one).
\<close>
theorem item_category_condition:
  "(\<forall>iv \<in> set (parse_intervals text). \<forall>it \<in> set (items iv).
      (category it = ustr ''standard'' \<longrightarrow> condition it = None)
      \<and> (category it = ustr ''special_condition'' \<longrightarrow> condition it \<noteq> None)
      \<and> (category it = ustr ''standard'' \<or> category it = ustr ''inspection''
          \<or> category it = ustr ''special_condition''))
   \<and> (\<forall>it \<in> set (extract_items body (ustr ''standard'') None). condition it = None)
   \<and> (\<forall>it \<in> set (parse_special_conditions sub). condition it \<noteq> None)"
proof (intro conjI ballI)
  fix iv it
  assume "iv \<in> set (parse_intervals text)" and it: "it \<in> set (items iv)"
  then obtain k sec where "iv = section_interval (k, sec)"
    using parse_intervals_items by blast
  with it have "it \<in> set (parse_items sec)"
    by (simp add: items_section_interval)
  from parse_items_fields [OF this]
  have f: "(condition it = None
          \<and> (category it = ustr ''standard'' \<or> category it = ustr ''inspection''))
       \<or> (condition it \<noteq> None
          \<and> (category it = ustr ''inspection'' \<or> category it = ustr ''special_condition''))"
    by (simp add: tagged_def)
  from f show "category it = ustr ''standard'' \<longrightarrow> condition it = None"
    using category_distinct by auto
  from f show "category it = ustr ''special_condition'' \<longrightarrow> condition it \<noteq> None"
    using category_distinct by auto
  from f show "category it = ustr ''standard'' \<or> category it = ustr ''inspection''
          \<or> category it = ustr ''special_condition''"
    by auto
next
  fix it
  assume "it \<in> set (extract_items body (ustr ''standard'') None)"
  from extract_items_fields [OF this] show "condition it = None"
    by simp
next
  fix it
  assume "it \<in> set (parse_special_conditions sub)"
  then show "condition it \<noteq> None"
    using psc_lines_tagged by (auto simp: parse_special_conditions_def tagged_def)
qed


theorem item_category_condition_witness:
  "parse_intervals
     (ustr ''5,000 miles or 6 months'' @ [NL, BOX] @ ustr '' Rotate tires'' @ [NL]
      @ ustr ''Special Operating Conditions'' @ [NL] @ ustr ''Driving on dusty roads''
      @ [NL, BOX] @ ustr '' Replace air filter'')
   = [\<lparr>interval_miles = 5000, interval_months = 6,
       items = [\<lparr>service = ustr ''Rotate tires'', category = ustr ''standard'',
                 condition = None\<rparr>,
                \<lparr>service = ustr ''Replace air filter'',
                 category = ustr ''special_condition'',
                 condition = Some (ustr ''dusty_roads'')\<rparr>]\<rparr>]
   \<and> extract_items ([BOX] @ ustr '' Rotate tires'') (ustr ''standard'') None
     = [\<lparr>service = ustr ''Rotate tires'', category = ustr ''standard'', condition = None\<rparr>]
   \<and> parse_special_conditions (ustr ''Driving on dusty roads'' @ [NL] @ ustr ''_ Inspect air filter'')
     = [\<lparr>service = ustr ''Inspect air filter'', category = ustr ''inspection'',
         condition = Some (ustr ''dusty_roads'')\<rparr>]"
proof -
  let ?text = "ustr ''5,000 miles or 6 months'' @ [NL, BOX] @ ustr '' Rotate tires'' @ [NL]
      @ ustr ''Special Operating Conditions'' @ [NL] @ ustr ''Driving on dusty roads''
      @ [NL, BOX] @ ustr '' Replace air filter''"
  let ?body = "[BOX] @ ustr '' Rotate tires''"
  let ?sub = "ustr ''Driving on dusty roads'' @ [NL] @ ustr ''_ Inspect air filter''"
  let ?it1 = "\<lparr>service = ustr ''Rotate tires'', category = ustr ''standard'', condition = None\<rparr>"
  let ?it2 = "\<lparr>service = ustr ''Replace air filter'', category = ustr ''special_condition'',
                 condition = Some (ustr ''dusty_roads'')\<rparr>"
  let ?it3 = "\<lparr>service = ustr ''Inspect air filter'', category = ustr ''inspection'',
         condition = Some (ustr ''dusty_roads'')\<rparr>"
  note c1 = item_category_condition [of ?text ?body ?sub]
  have a: "parse_intervals ?text
      = [\<lparr>interval_miles = 5000, interval_months = 6, items = [?it1, ?it2]\<rparr>]"
    by code_simp
  have b: "extract_items ?body (ustr ''standard'') None = [?it1]"
    by code_simp
  have c: "parse_special_conditions ?sub = [?it3]"
    by code_simp
  from c1 a have "condition ?it1 = None \<and> condition ?it2 \<noteq> None"
    by simp
  moreover from c1 b have "condition ?it1 = None"
    by simp
  moreover from c1 c have "condition ?it3 \<noteq> None"
    by simp
  ultimately show ?thesis
    using a b c by blast
qed

subsection \<open>Sections and intervals\<close>

lemma store_distinct:
  "distinct (map fst acc) \<Longrightarrow>
   distinct (map fst (foldl (\<lambda>sections (k, v). AList.update k v sections) acc es))"
  by (induction es arbitrary: acc) (auto simp: AList.distinct_update)

lemma store_map_of:
  "map_of (foldl (\<lambda>sections (k, v). AList.update k v sections) acc es)
   = map_of (rev es @ acc)"
proof (induction es arbitrary: acc)
  case Nil
  then show ?case by simp
next
  case (Cons e es)
  obtain k v where e: "e = (k, v)" by (cases e)
  have "map_of (foldl (\<lambda>sections (k, v). AList.update k v sections) acc (e # es))
      = map_of (rev es @ AList.update k v acc)"
    using Cons.IH [of "AList.update k v acc"] e by simp
  also have "\<dots> = map_of (rev es @ (k, v) # acc)"
    by (simp add: AList.update_conv')
  finally show ?case using e by simp
qed

lemma split_by_intervals_distinct: "distinct (map fst (split_by_intervals text))"
  unfolding split_by_intervals_def by (rule store_distinct) simp

lemma split_by_intervals_last_wins:
  "map_of (split_by_intervals text) = map_of (rev (header_entries text))"
  unfolding split_by_intervals_def by (simp add: store_map_of)

lemma key_section_interval:
  "(interval_miles (section_interval e), interval_months (section_interval e)) = fst e"
  by (cases e) (auto simp: section_interval_def)

lemma parse_intervals_mset:
  "mset (parse_intervals text)
   = mset (filter (\<lambda>iv. items iv \<noteq> []) (map section_interval (split_by_intervals text)))"
  by (simp add: parse_intervals_def)

lemma parse_intervals_distinct_keys:
  "distinct (map (\<lambda>iv. (interval_miles iv, interval_months iv)) (parse_intervals text))"
proof -
  let ?key = "\<lambda>iv. (interval_miles iv, interval_months iv)"
  let ?ivs = "map section_interval (split_by_intervals text)"
  have eq: "map ?key ?ivs = map fst (split_by_intervals text)"
    by (simp add: key_section_interval)
  have "distinct (map ?key ?ivs)"
    by (subst eq) (rule split_by_intervals_distinct)
  then have d: "distinct (map ?key (filter (\<lambda>iv. items iv \<noteq> []) ?ivs))"
    by (rule distinct_map_filter)
  have "mset (map ?key (parse_intervals text))
      = mset (map ?key (filter (\<lambda>iv. items iv \<noteq> []) ?ivs))"
    by (simp add: parse_intervals_def)
  then show ?thesis
    using d mset_eq_imp_distinct_iff by blast
qed

lemma parse_intervals_sorted: "sorted (map interval_miles (parse_intervals text))"
  by (simp add: parse_intervals_def)

lemma parse_intervals_stable:
  "filter (\<lambda>iv. interval_miles iv = m) (parse_intervals text)
   = filter (\<lambda>iv. interval_miles iv = m)
       (filter (\<lambda>iv. items iv \<noteq> []) (map section_interval (split_by_intervals text)))"
  unfolding parse_intervals_def by (rule sort_key_stable)

lemma parse_intervals_chunk:
  assumes "iv \<in> set (parse_intervals text)"
  shows "\<exists>chunk. map_of (rev (header_entries text)) (interval_miles iv, interval_months iv)
      = Some chunk \<and> items iv = parse_items chunk"
proof -
  from assms obtain k sec where m: "(k, sec) \<in> set (split_by_intervals text)"
    and iv: "iv = section_interval (k, sec)"
    by (auto simp: parse_intervals_def)
  from m have "map_of (split_by_intervals text) k = Some sec"
    using split_by_intervals_distinct by simp
  then have "map_of (rev (header_entries text)) k = Some sec"
    by (simp add: split_by_intervals_last_wins)
  moreover from iv have "(interval_miles iv, interval_months iv) = k"
    using key_section_interval [of "(k, sec)"] by simp
  moreover from iv have "items iv = parse_items sec"
    by (cases k) (simp add: section_interval_def)
  ultimately show ?thesis by auto
qed

text \<open>
  Claim C2, as stated: the later of two headers with the same mileage replaces the
  earlier one, so that no two intervals of the result have the same mileage. The key of
  the dictionary is the pair of mileage and months: two headers with the same mileage
  and different months give two intervals.
\<close>
theorem same_mileage_other_months_counterexample:
  "parse_intervals
     (ustr ''5,000 miles or 6 months'' @ [NL, BOX] @ ustr '' Rotate tires'' @ [NL]
      @ ustr ''5,000 miles or 12 months'' @ [NL, BOX] @ ustr '' Inspect brakes'')
   = [\<lparr>interval_miles = 5000, interval_months = 6,
       items = [\<lparr>service = ustr ''Rotate tires'', category = ustr ''standard'',
                 condition = None\<rparr>]\<rparr>,
      \<lparr>interval_miles = 5000, interval_months = 12,
       items = [\<lparr>service = ustr ''Inspect brakes'', category = ustr ''standard'',
                 condition = None\<rparr>]\<rparr>]
   \<and> map interval_miles (parse_intervals
     (ustr ''5,000 miles or 6 months'' @ [NL, BOX] @ ustr '' Rotate tires'' @ [NL]
      @ ustr ''5,000 miles or 12 months'' @ [NL, BOX] @ ustr '' Inspect brakes''))
     = [5000, 5000]"
  by code_simp

text \<open>
  Claim C2, amended. The intervals that \<^verbatim>\<open>_parse_intervals\<close> returns are in ascending
  order of mileage, not always strictly, and no two of them have the same pair of mileage
  and months. Where two headers have the same pair, the section text of the later one
  replaces that of the earlier one: the dictionary maps a pair to the text of the last
  header with that pair (the first entry for the pair in the reversed list of entries),
  and the items of a returned interval are those of that text.
\<close>
theorem intervals_sorted_last_wins:
  "sorted (map interval_miles (parse_intervals text))
   \<and> distinct (map (\<lambda>iv. (interval_miles iv, interval_months iv)) (parse_intervals text))
   \<and> map_of (split_by_intervals text) = map_of (rev (header_entries text))
   \<and> (\<forall>iv \<in> set (parse_intervals text).
        \<exists>chunk. map_of (rev (header_entries text)) (interval_miles iv, interval_months iv)
            = Some chunk
          \<and> items iv = parse_items chunk)"
  using parse_intervals_sorted parse_intervals_distinct_keys split_by_intervals_last_wins
    parse_intervals_chunk by blast


theorem intervals_sorted_last_wins_witness:
  "header_entries
     (ustr ''5,000 miles or 6 months'' @ [NL, BOX] @ ustr '' Rotate tires'' @ [NL]
      @ ustr ''5,000 miles or 6 months'' @ [NL, BOX] @ ustr '' Inspect brakes'')
   = [((5000, 6), [NL, BOX] @ ustr '' Rotate tires'' @ [NL]),
      ((5000, 6), [NL, BOX] @ ustr '' Inspect brakes'')]
   \<and> parse_intervals
     (ustr ''5,000 miles or 6 months'' @ [NL, BOX] @ ustr '' Rotate tires'' @ [NL]
      @ ustr ''5,000 miles or 6 months'' @ [NL, BOX] @ ustr '' Inspect brakes'')
   = [\<lparr>interval_miles = 5000, interval_months = 6,
       items = parse_items ([NL, BOX] @ ustr '' Inspect brakes'')\<rparr>]
   \<and> parse_items ([NL, BOX] @ ustr '' Inspect brakes'')
     = [\<lparr>service = ustr ''Inspect brakes'', category = ustr ''standard'', condition = None\<rparr>]"
proof -
  let ?text = "ustr ''5,000 miles or 6 months'' @ [NL, BOX] @ ustr '' Rotate tires'' @ [NL]
      @ ustr ''5,000 miles or 6 months'' @ [NL, BOX] @ ustr '' Inspect brakes''"
  let ?c1 = "[NL, BOX] @ ustr '' Rotate tires'' @ [NL]"
  let ?c2 = "[NL, BOX] @ ustr '' Inspect brakes''"
  let ?it = "\<lparr>service = ustr ''Inspect brakes'', category = ustr ''standard'', condition = None\<rparr>"
  have he: "header_entries ?text = [((5000, 6), ?c1), ((5000, 6), ?c2)]"
    by code_simp
  have pi: "parse_intervals ?text
      = [\<lparr>interval_miles = 5000, interval_months = 6, items = [?it]\<rparr>]"
    by code_simp
  have it: "parse_items ?c2 = [?it]"
    by code_simp
  from intervals_sorted_last_wins [of ?text] pi
  have "\<exists>chunk. map_of (rev (header_entries ?text)) (5000, 6) = Some chunk
      \<and> [?it] = parse_items chunk"
    by simp
  with he have "[?it] = parse_items ?c2"
    by simp
  with he pi it show ?thesis
    by simp
qed

text \<open>
  Claim C3, as stated: building the schedule fails with a DuplicateIntervalError when two
  triples of the same mileage reach it. The code has no such error and no check: two
  sections of the same mileage and different months both end up in the schedule.
\<close>
theorem duplicate_mileage_kept_counterexample:
  "parse_intervals
     (ustr ''30,000 miles or 36 months'' @ [NL, BOX] @ ustr '' Replace engine air filter''
      @ [NL] @ ustr ''30000 miles 48 months'' @ [NL, BOX] @ ustr '' Inspect fuel system'')
   = [\<lparr>interval_miles = 30000, interval_months = 36,
       items = [\<lparr>service = ustr ''Replace engine air filter'', category = ustr ''standard'',
                 condition = None\<rparr>]\<rparr>,
      \<lparr>interval_miles = 30000, interval_months = 48,
       items = [\<lparr>service = ustr ''Inspect fuel system'', category = ustr ''standard'',
                 condition = None\<rparr>]\<rparr>]
   \<and> map fst (split_by_intervals
     (ustr ''30,000 miles or 36 months'' @ [NL, BOX] @ ustr '' Replace engine air filter''
      @ [NL] @ ustr ''30000 miles 48 months'' @ [NL, BOX] @ ustr '' Inspect fuel system''))
     = [(30000, 36), (30000, 48)]"
  by code_simp

text \<open>
  Claim C3, amended. Building the schedule in \<^verbatim>\<open>_parse_intervals\<close> raises nothing: it
  drops the intervals without items and sorts the others by mileage, and the sort is
  stable. So the result has the intervals with items, each as often as the dictionary
  gives it, and the intervals of one mileage are all there, in the order of the
  dictionary.
\<close>
theorem assembly_keeps_duplicates:
  "mset (parse_intervals text)
     = mset (filter (\<lambda>iv. items iv \<noteq> []) (map section_interval (split_by_intervals text)))
   \<and> filter (\<lambda>iv. interval_miles iv = m) (parse_intervals text)
     = filter (\<lambda>iv. interval_miles iv = m)
         (filter (\<lambda>iv. items iv \<noteq> []) (map section_interval (split_by_intervals text)))"
  using parse_intervals_mset parse_intervals_stable by blast



section \<open>Properties of the standard schedule\<close>

lemma baseline_items:
  "item ''Rotate tires'' \<in> set (interval_items m)"
  "item ''Inspect wiper blades'' \<in> set (interval_items m)"
  "item ''Inspect and adjust all fluid levels'' \<in> set (interval_items m)"
  "item ''Visually inspect brake system'' \<in> set (interval_items m)"
  "item ''Check installation of driver's floor mat'' \<in> set (interval_items m)"
  by (simp_all add: interval_items_def Let_def)

lemma items_30k:
  assumes "m mod 30000 = 0"
  shows "item ''Replace engine air filter'' \<in> set (interval_items m)"
    "item ''Inspect drive shaft boots'' \<in> set (interval_items m)"
    "item ''Inspect ball joints and dust covers'' \<in> set (interval_items m)"
    "item ''Inspect fuel system'' \<in> set (interval_items m)"
  using assms by (simp_all add: interval_items_def Let_def)

lemma items_100k: "item ''Replace engine coolant'' \<in> set (interval_items 100000)"
  by (simp add: interval_items_def Let_def)

lemma items_120k: "item ''Replace spark plugs'' \<in> set (interval_items 120000)"
  by (simp add: interval_items_def Let_def)

lemma intervals_tp_items:
  "iv \<in> set (intervals_tp (get_standard_schedule now mdl yr url)) \<Longrightarrow>
   items_tp iv = interval_items (mileage iv)"
  by (auto simp: get_standard_schedule_def)

text \<open>
  Claim C6. In the standard schedule every interval has the five baseline items; an
  interval whose mileage is a multiple of 30,000 has the engine air filter replacement and
  the inspections of drive shaft boots, ball joints and fuel system as well; the interval
  at 100,000 has the coolant replacement and the one at 120,000 the spark plug
  replacement of the 4-cylinder engines. The mileages of the schedule are those of the
  table, so the intervals at 100,000 and at 120,000 are there.
\<close>
theorem standard_schedule_items:
  "(\<forall>iv \<in> set (intervals_tp (get_standard_schedule now mdl yr url)).
      {item ''Rotate tires'', item ''Inspect wiper blades'',
       item ''Inspect and adjust all fluid levels'', item ''Visually inspect brake system'',
       item ''Check installation of driver's floor mat''} \<subseteq> set (items_tp iv)
      \<and> (mileage iv mod 30000 = 0 \<longrightarrow>
           {item ''Replace engine air filter'', item ''Inspect drive shaft boots'',
            item ''Inspect ball joints and dust covers'', item ''Inspect fuel system''}
           \<subseteq> set (items_tp iv))
      \<and> (mileage iv = 100000 \<longrightarrow> item ''Replace engine coolant'' \<in> set (items_tp iv))
      \<and> (mileage iv = 120000 \<longrightarrow> item ''Replace spark plugs'' \<in> set (items_tp iv)))
   \<and> map mileage (intervals_tp (get_standard_schedule now mdl yr url))
     = map fst MILEAGE_INTERVALS"
proof -
  have "map mileage (intervals_tp (get_standard_schedule now mdl yr url))
      = map fst MILEAGE_INTERVALS"
    by (simp add: get_standard_schedule_def case_prod_unfold)
  moreover have "\<And>iv. iv \<in> set (intervals_tp (get_standard_schedule now mdl yr url)) \<Longrightarrow>
      items_tp iv = interval_items (mileage iv)"
    using intervals_tp_items by blast
  ultimately show ?thesis
    using baseline_items items_30k items_100k items_120k by simp
qed

theorem standard_schedule_items_witness:
  "\<lparr>mileage = 120000, months = 144, items_tp = interval_items 120000,
     special_operating_items = []\<rparr>
     \<in> set (intervals_tp (get_standard_schedule
         \<lparr>dt_year = 2024, dt_month = 1, dt_day = 1, dt_hour = 0, dt_minute = 0, dt_second = 0,
          dt_microsecond = 0\<rparr> (ustr ''Camry'') 2024 []))
   \<and> (120000::int) mod 30000 = 0
   \<and> item ''Rotate tires'' \<in> set (interval_items 120000)
   \<and> item ''Inspect fuel system'' \<in> set (interval_items 120000)
   \<and> item ''Replace spark plugs'' \<in> set (interval_items 120000)"
proof -
  let ?s = "get_standard_schedule
         \<lparr>dt_year = 2024, dt_month = 1, dt_day = 1, dt_hour = 0, dt_minute = 0, dt_second = 0,
          dt_microsecond = 0\<rparr> (ustr ''Camry'') 2024 []"
  let ?iv = "\<lparr>mileage = 120000, months = 144, items_tp = interval_items 120000,
     special_operating_items = []\<rparr>"
  have mem: "?iv \<in> set (intervals_tp ?s)"
    by (simp add: get_standard_schedule_def MILEAGE_INTERVALS_def)
  note h = conjunct1 [OF standard_schedule_items [of "\<lparr>dt_year = 2024, dt_month = 1,
    dt_day = 1, dt_hour = 0, dt_minute = 0, dt_second = 0, dt_microsecond = 0\<rparr>"
    "ustr ''Camry''" 2024 "[]"], THEN bspec, OF mem]
  from h mem show ?thesis
    by simp
qed

text \<open>
  Claim C4, as stated: two calls of \<^verbatim>\<open>get_standard_schedule\<close> with the same model and
  year give equal schedules. The schedule carries the reading of the clock in
  \<^verbatim>\<open>scraped_at\<close>, so two calls one second apart give different schedules.
\<close>
theorem standard_schedule_clock_counterexample:
  "get_standard_schedule
     \<lparr>dt_year = 2024, dt_month = 1, dt_day = 1, dt_hour = 0, dt_minute = 0, dt_second = 0,
      dt_microsecond = 0\<rparr> (ustr ''Camry'') 2024 []
   \<noteq> get_standard_schedule
     \<lparr>dt_year = 2024, dt_month = 1, dt_day = 1, dt_hour = 0, dt_minute = 0, dt_second = 1,
      dt_microsecond = 0\<rparr> (ustr ''Camry'') 2024 []"
proof -
  have "isoformat \<lparr>dt_year = 2024, dt_month = 1, dt_day = 1, dt_hour = 0, dt_minute = 0,
          dt_second = 0, dt_microsecond = 0\<rparr>
        \<noteq> isoformat \<lparr>dt_year = 2024, dt_month = 1, dt_day = 1, dt_hour = 0, dt_minute = 0,
          dt_second = 1, dt_microsecond = 0\<rparr>"
    by code_simp
  then show ?thesis
    by (simp add: get_standard_schedule_def)
qed

text \<open>
  Claim C4, amended. Two calls with the same model, year and URL give schedules that are
  equal in every field but \<^verbatim>\<open>scraped_at\<close>, which is the reading of the clock at the call
  followed by Z; the two schedules are equal exactly when the two readings print the same.
\<close>
theorem standard_schedule_deterministic_but_clock:
  "(get_standard_schedule now1 mdl yr url)\<lparr>scraped_at := s\<rparr>
     = (get_standard_schedule now2 mdl yr url)\<lparr>scraped_at := s\<rparr>
   \<and> scraped_at (get_standard_schedule now1 mdl yr url) = isoformat now1 @ ustr ''Z''
   \<and> (get_standard_schedule now1 mdl yr url = get_standard_schedule now2 mdl yr url
      \<longleftrightarrow> isoformat now1 = isoformat now2)"
  by (simp add: get_standard_schedule_def)

end
